theory Spec2Isabelle
  imports Complex_Main
begin

section \<open>Stochastic rotation quantization (biased) client: the codec of client.py\<close>

text \<open>
  The codec of \<^verbatim>\<open>client.py\<close> works on float32 tensors. Tensor elements are modelled
  as \<^typ>\<open>real\<close> numbers (the arithmetic is exact, without rounding, NaN or infinities),
  a 1-d tensor as a list and a 2-d tensor as the list of its rows. Every place where the
  source or a torch routine it calls raises is a branch returning \<open>Inl\<close> of the error.
\<close>

subsection \<open>Errors and tensors\<close>

datatype error = RuntimeError | IndexError

text \<open>Sequencing of computations that may raise: the first error wins.\<close>

definition and_then :: "error + 'a \<Rightarrow> ('a \<Rightarrow> error + 'b) \<Rightarrow> error + 'b" where
  "and_then r f = (case r of Inl e \<Rightarrow> Inl e | Inr x \<Rightarrow> f x)"

fun map_result :: "('a \<Rightarrow> error + 'b) \<Rightarrow> 'a list \<Rightarrow> error + 'b list" where
  "map_result f [] = Inr []"
| "map_result f (x # xs) =
     (case f x of
        Inl e \<Rightarrow> Inl e
      | Inr y \<Rightarrow> (case map_result f xs of Inl e \<Rightarrow> Inl e | Inr ys \<Rightarrow> Inr (y # ys)))"

text \<open>\<^verbatim>\<open>torch.max(params)\<close> and \<^verbatim>\<open>torch.min(params)\<close> with no \<^verbatim>\<open>dim\<close>: the
  extreme over all elements of the tensor; they raise on a tensor with no elements.\<close>

definition torch_max :: "real list \<Rightarrow> error + real" where
  "torch_max params = (if params = [] then Inl RuntimeError else Inr (Max (set params)))"

definition torch_min :: "real list \<Rightarrow> error + real" where
  "torch_min params = (if params = [] then Inl RuntimeError else Inr (Min (set params)))"

text \<open>\<^verbatim>\<open>torch.searchsorted(b, v, side='right')\<close> on one value: the index \<open>i\<close> with
  \<open>b[i-1] \<le> v < b[i]\<close>, that is the position of the first level above \<open>v\<close>.\<close>

definition searchsorted_right :: "real list \<Rightarrow> real \<Rightarrow> nat" where
  "searchsorted_right b v = length (takeWhile (\<lambda>x. x \<le> v) b)"

text \<open>Indexing a 1-d tensor with an integer: negative indices count from the end, an
  index out of range raises IndexError.\<close>

definition tensor_index :: "real list \<Rightarrow> int \<Rightarrow> error + real" where
  "tensor_index b i =
     (let n = int (length b); j = (if i < 0 then i + n else i)
      in if 0 \<le> j \<and> j < n then Inr (b ! nat j) else Inl IndexError)"

text \<open>\<^verbatim>\<open>torch.bernoulli(probs)\<close> on one element: the uniform draw \<open>u\<close> of \<open>[0, 1)\<close> that
  the generator supplies gives 1 when \<open>u < p\<close>; a probability outside \<open>[0, 1]\<close> is
  rejected with a RuntimeError.\<close>

definition bernoulli :: "real \<Rightarrow> real \<Rightarrow> error + real" where
  "bernoulli u p = (if 0 \<le> p \<and> p \<le> 1 then Inr (if u < p then 1 else 0) else Inl RuntimeError)"

text \<open>The distribution of that draw: the mean of \<open>f bit\<close> when \<open>bit\<close> is 1 with
  probability \<open>p\<close> and 0 with probability \<open>1 - p\<close>.\<close>

definition bernoulli_mean :: "real \<Rightarrow> (real \<Rightarrow> real) \<Rightarrow> real" where
  "bernoulli_mean p f = p * f 1 + (1 - p) * f 0"

definition unit_draws :: "(nat \<Rightarrow> real) \<Rightarrow> bool" where
  "unit_draws u = (\<forall>i. 0 \<le> u i \<and> u i < 1)"

subsection \<open>encoder\<close>

text \<open>
  \<^verbatim>\<open>s = torch.max(params) - torch.min(params)\<close>,
  \<^verbatim>\<open>b = torch.min(params) + ((s * torch.arange(K))/(K-1))\<close>. The level count \<open>K\<close> is the
  module constant of the source (64 there), taken as a parameter. \<open>K - 1\<close> is a Python
  integer, \<open>-1\<close> when \<open>K = 0\<close>.
\<close>

definition K_default :: nat where
  "K_default = 64"

definition levels :: "nat \<Rightarrow> real \<Rightarrow> real \<Rightarrow> real list" where
  "levels K mn mx = map (\<lambda>i. mn + ((mx - mn) * real i) / real_of_int (int K - 1)) [0..<K]"

definition encoder_levels :: "nat \<Rightarrow> real list \<Rightarrow> error + real list" where
  "encoder_levels K params =
     and_then (torch_max params) (\<lambda>mx.
     and_then (torch_min params) (\<lambda>mn.
     Inr (levels K mn mx)))"

text \<open>\<^verbatim>\<open>ids = torch.searchsorted(b, params, side='right') - 1\<close>\<close>

definition encoder_ids :: "real list \<Rightarrow> real list \<Rightarrow> int list" where
  "encoder_ids b params = map (\<lambda>v. int (searchsorted_right b v) - 1) params"

text \<open>\<^verbatim>\<open>pts = cat((ids, ids + 1), axis=-1)\<close> and \<^verbatim>\<open>pts[pts == K] = K-1\<close>: the assignment
  replaces every entry equal to \<open>K\<close>, in both columns.\<close>

definition clip_pt :: "nat \<Rightarrow> int \<Rightarrow> int" where
  "clip_pt K p = (if p = int K then int K - 1 else p)"

definition encoder_pts :: "nat \<Rightarrow> int list \<Rightarrow> (int \<times> int) list" where
  "encoder_pts K ids = map (\<lambda>r. (clip_pt K r, clip_pt K (r + 1))) ids"

text \<open>\<^verbatim>\<open>brs = b[pts]\<close>: column 0 is \<open>B(r)\<close>, column 1 is \<open>B(r+1)\<close>.\<close>

definition lookup_pair :: "real list \<Rightarrow> int \<times> int \<Rightarrow> error + (real \<times> real)" where
  "lookup_pair b pt =
     and_then (tensor_index b (fst pt)) (\<lambda>lo.
     and_then (tensor_index b (snd pt)) (\<lambda>hi.
     Inr (lo, hi)))"

definition encoder_brs :: "real list \<Rightarrow> (int \<times> int) list \<Rightarrow> error + (real \<times> real) list" where
  "encoder_brs b pts = map_result (lookup_pair b) pts"

text \<open>\<^verbatim>\<open>probs = torch.where(brs[..., 1] != brs[..., 0],
  (params - brs[..., 0]) / (brs[..., 1] - brs[..., 0]), 0)\<close>\<close>

definition prob :: "real \<Rightarrow> real \<times> real \<Rightarrow> real" where
  "prob v br = (if snd br \<noteq> fst br then (v - fst br) / (snd br - fst br) else 0)"

definition encoder_probs :: "real list \<Rightarrow> (real \<times> real) list \<Rightarrow> real list" where
  "encoder_probs params brs = map (\<lambda>(v, br). prob v br) (zip params brs)"

text \<open>\<^verbatim>\<open>encs = torch.bernoulli(probs)\<close>: element \<open>i\<close> consumes the draw \<open>u i\<close>.\<close>

definition encoder_encs :: "(nat \<Rightarrow> real) \<Rightarrow> real list \<Rightarrow> error + real list" where
  "encoder_encs u probs = map_result (\<lambda>(i, p). bernoulli (u i) p) (zip [0..<length probs] probs)"

text \<open>
  The encoder on a tensor given by its elements. With \<open>K = 1\<close> the float division by
  \<open>K - 1 = 0\<close> raises nothing: every level is NaN (\<open>0/0\<close>), so is every probability,
  and \<^verbatim>\<open>torch.bernoulli\<close> rejects them. Real arithmetic has no NaN, so that case is a
  branch of its own.
\<close>

definition encoder :: "nat \<Rightarrow> (nat \<Rightarrow> real) \<Rightarrow> real list \<Rightarrow> error + (real list \<times> (real \<times> real) list)" where
  "encoder K u params =
     and_then (encoder_levels K params) (\<lambda>b.
       if K = 1 then Inl RuntimeError
       else
         and_then (encoder_brs b (encoder_pts K (encoder_ids b params))) (\<lambda>brs.
         and_then (encoder_encs u (encoder_probs params brs)) (\<lambda>encs.
         Inr (encs, brs))))"

text \<open>The encoder on a 2-d tensor: the reductions range over all elements of the batch
  and every other step is elementwise, so the rows are encoded as one tensor and the
  results take the shape of the input.\<close>

fun unflatten :: "'b list list \<Rightarrow> 'a list \<Rightarrow> 'a list list" where
  "unflatten [] xs = []"
| "unflatten (r # rs) xs = take (length r) xs # unflatten rs (drop (length r) xs)"

definition encoder2 ::
  "nat \<Rightarrow> (nat \<Rightarrow> real) \<Rightarrow> real list list \<Rightarrow> error + (real list list \<times> (real \<times> real) list list)" where
  "encoder2 K u rows =
     and_then (encoder K u (concat rows)) (\<lambda>(encs, brs).
     Inr (unflatten rows encs, unflatten rows brs))"

text \<open>The bracket that the steps \<open>ids\<close>, \<open>pts\<close>, \<open>brs\<close> give one value when no lookup
  fails: \<open>(B(r), B(r+1))\<close> with \<open>r + 1\<close> the searchsorted position, both bounds the last
  level when that position is the number of levels.\<close>

definition bracket_of :: "real list \<Rightarrow> real \<Rightarrow> real \<times> real" where
  "bracket_of b v =
     (let r = searchsorted_right b v
      in (b ! (r - 1), if r = length b then b ! (length b - 1) else b ! r))"

text \<open>The bits that the draws \<open>u\<close> give a tensor whose levels are \<open>b\<close>.\<close>

definition encode_bits :: "(nat \<Rightarrow> real) \<Rightarrow> real list \<Rightarrow> real list \<Rightarrow> real list" where
  "encode_bits u b params =
     map (\<lambda>i. if u i < prob (params ! i) (bracket_of b (params ! i)) then 1 else 0) [0..<length params]"

definition half_draws :: "nat \<Rightarrow> real" where
  "half_draws i = 1 / 2"

text \<open>Concrete chunks: the chunk of the scenario, one with a value between two levels,
  and a constant one.\<close>

definition scenario_chunk :: "real list" where
  "scenario_chunk = [0, 1, 2, 3]"

definition interpolated_chunk :: "real list" where
  "interpolated_chunk = [0, 3 / 2, 3]"

definition constant_chunk :: "real list" where
  "constant_chunk = [5, 5, 5]"

subsection \<open>Rotation: matrix products\<close>

text \<open>A 2-d tensor is the list of its rows. \<^verbatim>\<open>.T\<close> lists the columns.\<close>

definition tensor_T :: "real list list \<Rightarrow> real list list" where
  "tensor_T A = (if A = [] then [] else map (\<lambda>j. map (\<lambda>row. row ! j) A) [0..<length (hd A)])"

definition dot :: "real list \<Rightarrow> real list \<Rightarrow> real" where
  "dot xs ys = sum_list (map2 (*) xs ys)"

text \<open>\<^verbatim>\<open>torch.matmul\<close> of two 2-d tensors, and of a 2-d with a 1-d tensor: the number of
  columns of the first must be the size of the second's first dimension, else it raises.\<close>

definition matmul :: "real list list \<Rightarrow> real list list \<Rightarrow> error + real list list" where
  "matmul A B =
     (if \<forall>row \<in> set A. length row = length B
      then Inr (map (\<lambda>row. map (\<lambda>col. dot row col) (tensor_T B)) A)
      else Inl RuntimeError)"

definition matvec :: "real list list \<Rightarrow> real list \<Rightarrow> error + real list" where
  "matvec A x =
     (if \<forall>row \<in> set A. length row = length x
      then Inr (map (\<lambda>row. dot row x) A)
      else Inl RuntimeError)"

definition identity :: "nat \<Rightarrow> real list list" where
  "identity n = map (\<lambda>i. map (\<lambda>j. if i = j then 1 else 0) [0..<n]) [0..<n]"

definition square :: "nat \<Rightarrow> real list list \<Rightarrow> bool" where
  "square n A = (length A = n \<and> (\<forall>row \<in> set A. length row = n))"

text \<open>The rotation matrices \<^verbatim>\<open>R1024\<close> and \<^verbatim>\<open>R512\<close> are loaded from files that are
  not part of the repository; they are parameters.\<close>

record catalog =
  R1024 :: "real list list"
  R512 :: "real list list"

text \<open>\<^verbatim>\<open>torch.matmul(R1024, params1024.T).T\<close> and \<^verbatim>\<open>torch.matmul(R512, params512)\<close>\<close>

definition rotate_rows :: "real list list \<Rightarrow> real list list \<Rightarrow> error + real list list" where
  "rotate_rows R X = and_then (matmul R (tensor_T X)) (\<lambda>Y. Inr (tensor_T Y))"

definition rotate_vec :: "real list list \<Rightarrow> real list \<Rightarrow> error + real list" where
  "rotate_vec R x = matvec R x"

text \<open>\<^verbatim>\<open>torch.matmul(torch.linalg.inv(R1024), dec1024.T).T\<close> and
  \<^verbatim>\<open>torch.matmul(torch.linalg.inv(R512), dec512)\<close>. The library routine
  \<^verbatim>\<open>torch.linalg.inv\<close> is the parameter \<open>linalg_inv\<close>; it raises on a matrix that has
  no inverse.\<close>

definition unrotate_rows ::
  "(real list list \<Rightarrow> error + real list list) \<Rightarrow> real list list \<Rightarrow> real list list \<Rightarrow> error + real list list" where
  "unrotate_rows linalg_inv R D =
     and_then (linalg_inv R) (\<lambda>Ri.
     and_then (matmul Ri (tensor_T D)) (\<lambda>Y. Inr (tensor_T Y)))"

definition unrotate_vec ::
  "(real list list \<Rightarrow> error + real list list) \<Rightarrow> real list list \<Rightarrow> real list \<Rightarrow> error + real list" where
  "unrotate_vec linalg_inv R d = and_then (linalg_inv R) (\<lambda>Ri. matvec Ri d)"

text \<open>What the theorems ask of \<open>linalg_inv\<close> at a matrix \<open>R\<close> of size \<open>n\<close>: it returns
  a matrix of that size whose product with \<open>R\<close> is the identity.\<close>

definition inverse_at :: "(real list list \<Rightarrow> error + real list list) \<Rightarrow> nat \<Rightarrow> real list list \<Rightarrow> bool" where
  "inverse_at linalg_inv n R =
     (square n R \<and>
      (case linalg_inv R of
         Inl e \<Rightarrow> False
       | Inr Ri \<Rightarrow> square n Ri \<and> matmul Ri R = Inr (identity n)))"

text \<open>A concrete rotation of size 2 with its inverse, and a batch of three chunks.\<close>

definition quarter_turn :: "real list list" where
  "quarter_turn = [[0, 1], [- 1, 0]]"

definition quarter_turn_back :: "real list list" where
  "quarter_turn_back = [[0, - 1], [1, 0]]"

definition sample_inv :: "real list list \<Rightarrow> error + real list list" where
  "sample_inv M = (if M = quarter_turn then Inr quarter_turn_back else Inl RuntimeError)"

definition sample_batch :: "real list list" where
  "sample_batch = [[1, 2], [3, 4], [5, 6]]"

subsection \<open>decoder\<close>

text \<open>One element of \<^verbatim>\<open>torch.where(encs == 1, (3*brs[..., 1] + brs[..., 0])/4,
  (3*brs[..., 0] + brs[..., 1])/4)\<close>\<close>

definition dequantize :: "real \<Rightarrow> real \<times> real \<Rightarrow> real" where
  "dequantize enc br = (if enc = 1 then (3 * snd br + fst br) / 4 else (3 * fst br + snd br) / 4)"

text \<open>The mean of the decoder's estimate over the draw of one bit with probability \<open>p\<close>.\<close>

definition mean_decode :: "real \<Rightarrow> real \<times> real \<Rightarrow> real" where
  "mean_decode p br = bernoulli_mean p (\<lambda>bit. dequantize bit br)"

text \<open>On the 1-d tensors of the 512 chunk and on the 2-d tensors of the 1024 chunks. The
  decoder receives what the encoder returned, where \<open>encs\<close> and \<open>brs\<close> have one shape;
  tensors whose shapes differ are rejected here (torch would also accept shapes that
  broadcast, which the encoder never returns).\<close>

definition where_decode :: "real list \<Rightarrow> (real \<times> real) list \<Rightarrow> error + real list" where
  "where_decode encs brs =
     (if length encs = length brs then Inr (map2 dequantize encs brs) else Inl RuntimeError)"

definition where_decode2 :: "real list list \<Rightarrow> (real \<times> real) list list \<Rightarrow> error + real list list" where
  "where_decode2 encs brs =
     (if length encs = length brs
      then map_result (\<lambda>(e, b). where_decode e b) (zip encs brs)
      else Inl RuntimeError)"

text \<open>A concrete encoded tensor.\<close>

definition sample_encs :: "real list" where
  "sample_encs = [0, 1]"

definition sample_brs :: "(real \<times> real) list" where
  "sample_brs = [(0, 1), (1, 2)]"

text \<open>
  The reassembly loop over \<^verbatim>\<open>model.parameters()\<close>: \<open>sizes\<close> lists \<^verbatim>\<open>layer.numel()\<close>
  of every layer. A slice \<^verbatim>\<open>dec[ptr: ptr+size]\<close> stops at the end of \<open>dec\<close>, and
  \<^verbatim>\<open>reshape(layer.shape)\<close> raises when the slice has not \<^verbatim>\<open>size\<close> elements. A reshaped
  layer is kept as the list of its elements.
\<close>

fun revert :: "nat list \<Rightarrow> nat \<Rightarrow> real list \<Rightarrow> error + real list list" where
  "revert [] ptr dec = Inr []"
| "revert (n # sizes) ptr dec =
     (let sl = take n (drop ptr dec)
      in if length sl \<noteq> n then Inl RuntimeError
         else and_then (revert sizes (ptr + n) dec) (\<lambda>rest. Inr (sl # rest)))"

definition decoder ::
  "(real list list \<Rightarrow> error + real list list) \<Rightarrow> catalog \<Rightarrow> nat list
   \<Rightarrow> real list list \<times> (real \<times> real) list list \<Rightarrow> real list \<times> (real \<times> real) list
   \<Rightarrow> error + real list list" where
  "decoder linalg_inv cat sizes encs_brs_1024 encs_brs_512 =
     and_then (where_decode2 (fst encs_brs_1024) (snd encs_brs_1024)) (\<lambda>dec1024.
     and_then (unrotate_rows linalg_inv (R1024 cat) dec1024) (\<lambda>dec1024.
     and_then (where_decode (fst encs_brs_512) (snd encs_brs_512)) (\<lambda>dec512.
     and_then (unrotate_vec linalg_inv (R512 cat) dec512) (\<lambda>dec512.
     revert sizes 0 (concat dec1024 @ dec512)))))"

subsection \<open>FlowerClient.get_parameters\<close>

text \<open>\<^verbatim>\<open>torch.split(t, 1024)\<close>: pieces of the given size, the last one shorter when the
  length is no multiple of it, and one empty piece for an empty tensor.\<close>

definition torch_split :: "real list \<Rightarrow> nat \<Rightarrow> real list list" where
  "torch_split xs n = map (\<lambda>i. take n (drop (i * n) xs)) [0..<max ((length xs + n - 1) div n) 1]"

text \<open>\<^verbatim>\<open>torch.stack\<close> raises on an empty sequence and on tensors of different sizes.\<close>

definition torch_stack :: "real list list \<Rightarrow> error + real list list" where
  "torch_stack ts =
     (if ts = [] then Inl RuntimeError
      else if \<forall>t \<in> set ts. length t = length (hd ts) then Inr ts
      else Inl RuntimeError)"

text \<open>\<^verbatim>\<open>torch.stack(torch.split(flat_params[:flat_params.numel() - flat_params.numel() % 1024], 1024))\<close>\<close>

definition chunks1024 :: "real list \<Rightarrow> error + real list list" where
  "chunks1024 flat_params =
     torch_stack (torch_split (take (length flat_params - length flat_params mod 1024) flat_params) 1024)"

text \<open>A slice \<^verbatim>\<open>xs[i:]\<close>: a negative start counts from the end, and \<open>-0\<close> is \<open>0\<close>.\<close>

definition slice_from :: "'a list \<Rightarrow> int \<Rightarrow> 'a list" where
  "slice_from xs i = (if i < 0 then drop (nat (int (length xs) + i)) xs else drop (nat i) xs)"

text \<open>\<^verbatim>\<open>flat_params[-(flat_params.numel() % 1024):]\<close>\<close>

definition remainder_slice :: "real list \<Rightarrow> real list" where
  "remainder_slice flat_params = slice_from flat_params (- int (length flat_params mod 1024))"

text \<open>\<^verbatim>\<open>int(2**torch.ceil(torch.log2(torch.tensor(n))) - n)\<close>: the distance to the next
  power of two. \<open>ceil_log2 n\<close> is the exact value of \<open>ceil(log2(n))\<close> for \<open>n \<ge> 1\<close>; for
  \<open>n = 0\<close> the logarithm is \<open>-inf\<close> and the power is 0.\<close>

fun ceil_log2 :: "nat \<Rightarrow> nat" where
  "ceil_log2 n = (if n \<le> 1 then 0 else Suc (ceil_log2 ((n + 1) div 2)))"

definition next_pow2 :: "nat \<Rightarrow> nat" where
  "next_pow2 n = (if n = 0 then 0 else 2 ^ ceil_log2 n)"

definition pad_count :: "nat \<Rightarrow> nat" where
  "pad_count n = next_pow2 n - n"

text \<open>\<^verbatim>\<open>params512 = torch.cat((params512, torch.zeros(...)))\<close>\<close>

definition chunk512 :: "real list \<Rightarrow> real list" where
  "chunk512 flat_params =
     (let params512 = remainder_slice flat_params
      in params512 @ replicate (pad_count (length params512)) 0)"

text \<open>
  \<^verbatim>\<open>get_parameters\<close>: the layers of the model are given by their elements, and
  \<^verbatim>\<open>parameters_to_vector\<close> concatenates them. The two encoder calls draw from the
  generator one after the other: \<open>u1\<close> and \<open>u2\<close> are the draws of each.
\<close>

definition get_parameters ::
  "(real list list \<Rightarrow> error + real list list) \<Rightarrow> catalog \<Rightarrow> nat
   \<Rightarrow> (nat \<Rightarrow> real) \<Rightarrow> (nat \<Rightarrow> real) \<Rightarrow> real list list \<Rightarrow> error + real list list" where
  "get_parameters linalg_inv cat K u1 u2 layers =
     (let flat_params = concat layers in
      and_then (chunks1024 flat_params) (\<lambda>params1024.
      and_then (rotate_rows (R1024 cat) params1024) (\<lambda>params1024.
      and_then (rotate_vec (R512 cat) (chunk512 flat_params)) (\<lambda>params512.
      and_then (encoder2 K u1 params1024) (\<lambda>encs_brs_1024.
      and_then (encoder K u2 params512) (\<lambda>encs_brs_512.
      decoder linalg_inv cat (map length layers) encs_brs_1024 encs_brs_512))))))"


subsection \<open>LeNet5\<close>

text \<open>
  The shapes of the tensors of \<^verbatim>\<open>model.parameters()\<close>, in their order: weight and bias of
  \<^verbatim>\<open>Conv2d(1, 6, kernel_size=5)\<close>, \<^verbatim>\<open>Conv2d(6, 16, kernel_size=5)\<close>,
  \<^verbatim>\<open>Linear(16*4*4, 120)\<close>, \<^verbatim>\<open>Linear(120, 84)\<close> and \<^verbatim>\<open>Linear(84, num_classes)\<close> with
  \<^verbatim>\<open>num_classes=10\<close>; \<^verbatim>\<open>numel\<close> is the number of elements of a tensor of a given shape.
\<close>

definition LeNet5_shapes :: "nat list list" where
  "LeNet5_shapes =
     [[6, 1, 5, 5], [6], [16, 6, 5, 5], [16], [120, 16 * 4 * 4], [120], [84, 120], [84], [10, 84], [10]]"

definition numel :: "nat list \<Rightarrow> nat" where
  "numel shape = prod_list shape"

text \<open>Concrete parameters: a model of the shapes of LeNet5, a model of two layers with
  1300 elements, a model of 300 elements, a vector of 1124 elements and a vector of two
  full chunks; and a catalog of identity matrices.\<close>

definition LeNet5_layers :: "real list list" where
  "LeNet5_layers = map (\<lambda>shape. replicate (numel shape) 1) LeNet5_shapes"

definition two_layers :: "real list list" where
  "two_layers = [replicate 1000 1, replicate 300 2]"

definition short_tail_vector :: "real list" where
  "short_tail_vector = replicate 1124 1"

definition whole_chunks_vector :: "real list" where
  "whole_chunks_vector = replicate 2048 1"

definition short_layers :: "real list list" where
  "short_layers = [replicate 300 1]"

definition identity_catalog :: catalog where
  "identity_catalog = \<lparr>R1024 = identity 1024, R512 = identity 512\<rparr>"

subsection \<open>float32 arithmetic of the levels\<close>

text \<open>
  The tensors of the source are float32 (\<^verbatim>\<open>R1024\<close> and \<^verbatim>\<open>R512\<close> are cast with
  \<^verbatim>\<open>.type(torch.float32)\<close>, the parameters of the model have the default dtype): every
  operation on them returns its exact result rounded to the nearest float32 number, ties
  to the even significand. \<open>float32\<close> is that rounding, to 24 significant bits; the range
  of the exponent is not bounded, so overflow to infinity and subnormal numbers are not
  modelled. \<open>rne\<close> rounds to the nearest integer, ties to even, and \<open>ulp x\<close> is the spacing
  of the float32 numbers of the magnitude of \<open>x\<close>.
\<close>

definition rne :: "real \<Rightarrow> int" where
  "rne x =
     (let n = \<lfloor>x\<rfloor>; f = x - of_int n
      in if f < 1 / 2 then n else if 1 / 2 < f then n + 1 else if even n then n else n + 1)"

definition ulp :: "real \<Rightarrow> real" where
  "ulp x = 2 powi (\<lfloor>log 2 \<bar>x\<bar>\<rfloor> - 23)"

definition float32 :: "real \<Rightarrow> real" where
  "float32 x = (if x = 0 then 0 else of_int (rne (x / ulp x)) * ulp x)"

text \<open>What the theorems use of a rounding: it keeps 0 and it is monotone. A tensor of
  the dtype holds numbers that the rounding keeps.\<close>

definition rounding :: "(real \<Rightarrow> real) \<Rightarrow> bool" where
  "rounding rnd = (rnd 0 = 0 \<and> (\<forall>x y. x \<le> y \<longrightarrow> rnd x \<le> rnd y))"

definition float_tensor :: "(real \<Rightarrow> real) \<Rightarrow> real list \<Rightarrow> bool" where
  "float_tensor rnd params = (\<forall>x \<in> set params. rnd x = x)"

text \<open>
  The levels as the source computes them,
  \<^verbatim>\<open>s = torch.max(params) - torch.min(params)\<close>,
  \<^verbatim>\<open>b = torch.min(params) + ((s * torch.arange(K))/(K-1))\<close>, with the rounding \<open>rnd\<close> of
  each of the four operations: the difference, the product with the index, the quotient
  by \<open>K - 1\<close> and the sum with the minimum (the indices and \<open>K - 1\<close> are small integers,
  which the conversion to float32 keeps). With the rounding \<open>\<lambda>x. x\<close> they are \<open>levels\<close>,
  the levels of exact arithmetic.
\<close>

definition levels_rounded :: "(real \<Rightarrow> real) \<Rightarrow> nat \<Rightarrow> real \<Rightarrow> real \<Rightarrow> real list" where
  "levels_rounded rnd K mn mx =
     map (\<lambda>i. rnd (mn + rnd (rnd (rnd (mx - mn) * real i) / real_of_int (int K - 1)))) [0..<K]"

definition encoder_levels_rounded :: "(real \<Rightarrow> real) \<Rightarrow> nat \<Rightarrow> real list \<Rightarrow> error + real list" where
  "encoder_levels_rounded rnd K params =
     and_then (torch_max params) (\<lambda>mx.
     and_then (torch_min params) (\<lambda>mn.
     Inr (levels_rounded rnd K mn mx)))"

text \<open>
  The encoder with these levels. The other steps are those of \<open>encoder\<close>: the comparisons
  of \<^verbatim>\<open>torch.searchsorted\<close> are exact on float32 numbers, and the rounding of the
  probabilities is not modelled. \<open>encoder2_rounded\<close> is the call on a 2-d tensor.
\<close>

definition encoder_rounded ::
  "(real \<Rightarrow> real) \<Rightarrow> nat \<Rightarrow> (nat \<Rightarrow> real) \<Rightarrow> real list \<Rightarrow> error + (real list \<times> (real \<times> real) list)" where
  "encoder_rounded rnd K u params =
     and_then (encoder_levels_rounded rnd K params) (\<lambda>b.
       if K = 1 then Inl RuntimeError
       else
         and_then (encoder_brs b (encoder_pts K (encoder_ids b params))) (\<lambda>brs.
         and_then (encoder_encs u (encoder_probs params brs)) (\<lambda>encs.
         Inr (encs, brs))))"


text \<open>
  The mean of a function \<open>g\<close> of the uniform draw of \<open>[0, 1)\<close> over the \<open>N\<close> equally
  spaced draws \<open>0, 1/N, \<dots>, (N-1)/N\<close>; its limit for \<open>N \<rightarrow> \<infinity>\<close> is the mean of \<open>g\<close> over
  the uniform distribution (the integral of \<open>g\<close> over \<open>[0, 1)\<close>) for the step functions
  of the theorems.
\<close>

definition draw_mean :: "nat \<Rightarrow> (real \<Rightarrow> real) \<Rightarrow> real" where
  "draw_mean N g = (\<Sum>k<N. g (real k / real N)) / real N"




subsection \<open>The levels\<close>

lemma and_then_Inr [simp]: "and_then (Inr x) f = f x"
  by (simp add: and_then_def)

lemma and_then_Inl [simp]: "and_then (Inl e) f = Inl e"
  by (simp add: and_then_def)

lemma encoder_levels_nonempty:
  "params \<noteq> [] \<Longrightarrow> encoder_levels K params = Inr (levels K (Min (set params)) (Max (set params)))"
  by (simp add: encoder_levels_def torch_max_def torch_min_def)

lemma length_levels [simp]: "length (levels K mn mx) = K"
  by (simp add: levels_def)

lemma levels_nth:
  "i < K \<Longrightarrow> levels K mn mx ! i = mn + (mx - mn) * real i / (real K - 1)"
  by (simp add: levels_def)

lemma levels_first: "0 < K \<Longrightarrow> levels K mn mx ! 0 = mn"
  by (simp add: levels_nth)


lemma levels_mono:
  assumes "2 \<le> K" "mn \<le> mx" "i \<le> j" "j < K"
  shows "levels K mn mx ! i \<le> levels K mn mx ! j"
proof -
  have pos: "0 < real K - 1" using assms(1) by simp
  have "(mx - mn) * real i \<le> (mx - mn) * real j"
    using assms(2,3) by (simp add: mult_left_mono)
  then have "(mx - mn) * real i / (real K - 1) \<le> (mx - mn) * real j / (real K - 1)"
    using pos by (simp add: divide_right_mono)
  then show ?thesis using assms(3,4) by (simp add: levels_nth)
qed


lemma sorted_levels: "2 \<le> K \<Longrightarrow> mn \<le> mx \<Longrightarrow> sorted (levels K mn mx)"
  by (simp add: sorted_iff_nth_mono levels_mono)



subsection \<open>Brackets\<close>

lemma map_result_Inr:
  "(\<And>x. x \<in> set xs \<Longrightarrow> f x = Inr (g x)) \<Longrightarrow> map_result f xs = Inr (map g xs)"
  by (induction xs) simp_all

lemma searchsorted_right_le: "searchsorted_right b v \<le> length b"
  by (simp add: searchsorted_right_def length_takeWhile_le)

lemma searchsorted_right_below:
  "i < searchsorted_right b v \<Longrightarrow> b ! i \<le> v"
  unfolding searchsorted_right_def
  using nth_mem [of i "takeWhile (\<lambda>x. x \<le> v) b"] set_takeWhileD [of "b ! i" "\<lambda>x. x \<le> v" b]
  by (simp add: takeWhile_nth)

lemma searchsorted_right_above:
  "searchsorted_right b v < length b \<Longrightarrow> v < b ! searchsorted_right b v"
  unfolding searchsorted_right_def
  using nth_length_takeWhile [of "\<lambda>x. x \<le> v" b] by simp

lemma searchsorted_right_pos:
  "b \<noteq> [] \<Longrightarrow> b ! 0 \<le> v \<Longrightarrow> 0 < searchsorted_right b v"
  unfolding searchsorted_right_def by (cases b) simp_all

lemma tensor_index_nat: "i < length b \<Longrightarrow> tensor_index b (int i) = Inr (b ! i)"
  by (simp add: tensor_index_def)

lemma clip_pt_below: "n < K \<Longrightarrow> clip_pt K (int n) = int n"
  by (simp add: clip_pt_def)

lemma clip_pt_at: "clip_pt (Suc n) (int n + 1) = int n"
  by (simp add: clip_pt_def)

lemma lookup_pair_nat:
  "i < length b \<Longrightarrow> j < length b \<Longrightarrow> lookup_pair b (int i, int j) = Inr (b ! i, b ! j)"
  by (simp add: lookup_pair_def tensor_index_nat)

lemma lookup_pair_ids:
  assumes "b \<noteq> []" and "b ! 0 \<le> v"
  shows "lookup_pair b (clip_pt (length b) (int (searchsorted_right b v) - 1),
                        clip_pt (length b) (int (searchsorted_right b v) - 1 + 1))
         = Inr (bracket_of b v)"
proof -
  have "0 < searchsorted_right b v" using assms by (rule searchsorted_right_pos)
  then obtain n where r: "searchsorted_right b v = Suc n"
    by (cases "searchsorted_right b v") simp_all
  have le: "Suc n \<le> length b" using searchsorted_right_le [of b v] r by simp
  have i1: "int (Suc n) - 1 = int n" by simp
  have i2: "int (Suc n) - 1 + 1 = int n + 1" by simp
  have n_lt: "n < length b" using le by simp
  show ?thesis
  proof (cases "Suc n = length b")
    case True
    have c2: "clip_pt (length b) (int n + 1) = int n"
      unfolding True [symmetric] by (rule clip_pt_at)
    have "bracket_of b v = (b ! n, b ! n)"
      using True by (simp add: bracket_of_def r True [symmetric])
    then show ?thesis
      unfolding r i1 i2 c2 clip_pt_below [OF n_lt]
      using n_lt by (simp add: lookup_pair_nat)
  next
    case False
    then have lt: "Suc n < length b" using le by simp
    have c2: "clip_pt (length b) (int n + 1) = int (Suc n)"
      using lt by (simp add: clip_pt_def)
    have "bracket_of b v = (b ! n, b ! Suc n)"
      using False by (simp add: bracket_of_def r)
    then show ?thesis
      unfolding r i1 i2 c2 clip_pt_below [OF n_lt]
      using n_lt lt by (simp only: lookup_pair_nat)
  qed
qed

lemma map_result_map: "map_result f (map g xs) = map_result (\<lambda>x. f (g x)) xs"
  by (induction xs) (simp_all split: sum.splits)

lemma encoder_brs_bracket:
  assumes "b \<noteq> []" and "\<And>v. v \<in> set params \<Longrightarrow> b ! 0 \<le> v"
  shows "encoder_brs b (encoder_pts (length b) (encoder_ids b params)) = Inr (map (bracket_of b) params)"
  unfolding encoder_brs_def encoder_pts_def encoder_ids_def map_result_map
  using assms by (intro map_result_Inr lookup_pair_ids)

lemma bracket_of_lower:
  assumes "b \<noteq> []" and "b ! 0 \<le> v"
  shows "fst (bracket_of b v) \<le> v"
proof -
  have "0 < searchsorted_right b v" using assms by (rule searchsorted_right_pos)
  then have "b ! (searchsorted_right b v - 1) \<le> v"
    by (intro searchsorted_right_below) simp
  then show ?thesis by (simp add: bracket_of_def Let_def)
qed

subsection \<open>The encoder returns\<close>

lemma bracket_of_cases:
  assumes "b \<noteq> []" and "b ! 0 \<le> v"
  shows "(fst (bracket_of b v) = snd (bracket_of b v) \<and> searchsorted_right b v = length b)
       \<or> (fst (bracket_of b v) \<le> v \<and> v < snd (bracket_of b v) \<and> searchsorted_right b v < length b)"
proof (cases "searchsorted_right b v = length b")
  case True
  then show ?thesis by (simp add: bracket_of_def Let_def)
next
  case False
  then have lt: "searchsorted_right b v < length b"
    using searchsorted_right_le [of b v] by simp
  then have "v < b ! searchsorted_right b v" by (rule searchsorted_right_above)
  then have "v < snd (bracket_of b v)" using False by (simp add: bracket_of_def Let_def)
  with bracket_of_lower [OF assms] lt show ?thesis by simp
qed

lemma prob_bracket_range:
  assumes "b \<noteq> []" and "b ! 0 \<le> v"
  shows "0 \<le> prob v (bracket_of b v) \<and> prob v (bracket_of b v) < 1"
  using bracket_of_cases [OF assms] by (auto simp: prob_def)

lemma encoder_probs_map:
  "encoder_probs params (map f params) = map (\<lambda>v. prob v (f v)) params"
  by (simp add: encoder_probs_def zip_map2 zip_same_conv_map)

lemma encoder_encs_Inr:
  assumes "\<And>p. p \<in> set probs \<Longrightarrow> 0 \<le> p \<and> p \<le> 1"
  shows "encoder_encs u probs = Inr (map (\<lambda>(i, p). if u i < p then 1 else 0) (zip [0..<length probs] probs))"
  unfolding encoder_encs_def
proof (rule map_result_Inr)
  fix x assume x: "x \<in> set (zip [0..<length probs] probs)"
  obtain i p where ip: "x = (i, p)" by (cases x)
  with x have "p \<in> set probs" by (auto dest: set_zip_rightD)
  then have "snd x \<in> set probs" using ip by simp
  from assms [OF this] show "(case x of (i, p) \<Rightarrow> bernoulli (u i) p) = Inr (case x of (i, p) \<Rightarrow> if u i < p then 1 else 0)"
    by (cases x) (simp add: bernoulli_def)
qed

lemma zip_upt_map: "map g (zip [0..<length xs] xs) = map (\<lambda>i. g (i, xs ! i)) [0..<length xs]"
  by (rule nth_equalityI) simp_all

lemma encoder_on_levels:
  assumes "K \<noteq> 1" and "encoder_levels K params = Inr b" and "length b = K" and "b \<noteq> []"
    and "\<And>v. v \<in> set params \<Longrightarrow> b ! 0 \<le> v"
  shows "encoder K u params = Inr (encode_bits u b params, map (bracket_of b) params)"
proof -
  have brs: "encoder_brs b (encoder_pts K (encoder_ids b params)) = Inr (map (bracket_of b) params)"
    using encoder_brs_bracket [OF assms(4,5)] assms(3) by simp
  have range: "\<And>p. p \<in> set (map (\<lambda>v. prob v (bracket_of b v)) params) \<Longrightarrow> 0 \<le> p \<and> p \<le> 1"
    using prob_bracket_range [OF assms(4)] assms(5) by fastforce
  have encs: "encoder_encs u (encoder_probs params (map (bracket_of b) params)) = Inr (encode_bits u b params)"
  proof -
    let ?ps = "map (\<lambda>v. prob v (bracket_of b v)) params"
    have "encoder_encs u ?ps = Inr (map (\<lambda>(i, p). if u i < p then 1 else 0) (zip [0..<length ?ps] ?ps))"
      using range by (rule encoder_encs_Inr)
    also have "map (\<lambda>(i, p). if u i < p then 1 else 0) (zip [0..<length ?ps] ?ps) = encode_bits u b params"
      unfolding zip_upt_map encode_bits_def by simp
    finally show ?thesis by (simp only: encoder_probs_map)
  qed
  show ?thesis
    using assms(1) by (simp add: encoder_def assms(2) brs encs)
qed

lemma Min_le_elem: "v \<in> set params \<Longrightarrow> Min (set params) \<le> v"
  by simp

lemma encoder_returns:
  assumes "2 \<le> K" and "params \<noteq> []"
  shows "encoder K u params =
           Inr (encode_bits u (levels K (Min (set params)) (Max (set params))) params,
                map (bracket_of (levels K (Min (set params)) (Max (set params)))) params)"
proof (rule encoder_on_levels)
  show "K \<noteq> 1" using assms(1) by simp
  show "encoder_levels K params = Inr (levels K (Min (set params)) (Max (set params)))"
    using assms(2) by (rule encoder_levels_nonempty)
  show "length (levels K (Min (set params)) (Max (set params))) = K" by simp
  show "levels K (Min (set params)) (Max (set params)) \<noteq> []"
    using assms(1) by (simp add: levels_def)
  show "\<And>v. v \<in> set params \<Longrightarrow> levels K (Min (set params)) (Max (set params)) ! 0 \<le> v"
    using assms(1) by (simp add: levels_first)
qed

subsection \<open>Elements of the result\<close>




lemma length_encode_bits [simp]: "length (encode_bits u b params) = length params"
  by (simp add: encode_bits_def)

lemma encode_bits_nth:
  "i < length params \<Longrightarrow> encode_bits u b params ! i
     = (if u i < prob (params ! i) (bracket_of b (params ! i)) then 1 else 0)"
  by (simp add: encode_bits_def)

lemma encoder_probs_nth:
  "i < length params \<Longrightarrow> encoder_probs params (map f params) ! i = prob (params ! i) (f (params ! i))"
  by (simp add: encoder_probs_map)

lemma encoder_ids_nth:
  "i < length params \<Longrightarrow> encoder_ids b params ! i = int (searchsorted_right b (params ! i)) - 1"
  by (simp add: encoder_ids_def)

subsection \<open>The decoder's estimate\<close>

lemma where_decode_nth:
  assumes "length encs = length brs" and "i < length encs"
  shows "\<exists>dec. where_decode encs brs = Inr dec \<and> length dec = length encs
           \<and> dec ! i = dequantize (encs ! i) (brs ! i)"
  using assms by (simp add: where_decode_def)

lemma map_result_nth:
  assumes "\<And>x. x \<in> set xs \<Longrightarrow> \<exists>y. f x = Inr y"
  shows "\<exists>ys. map_result f xs = Inr ys \<and> length ys = length xs \<and> (\<forall>i<length xs. f (xs ! i) = Inr (ys ! i))"
  using assms
proof (induction xs)
  case Nil
  then show ?case by simp
next
  case (Cons x xs)
  from Cons.prems obtain y where y: "f x = Inr y" by auto
  from Cons obtain ys where ys: "map_result f xs = Inr ys" "length ys = length xs"
      "\<forall>i<length xs. f (xs ! i) = Inr (ys ! i)" by auto
  have "\<forall>i<length (x # xs). f ((x # xs) ! i) = Inr ((y # ys) ! i)"
    using y ys(3) by (auto simp: nth_Cons split: nat.splits)
  then show ?case using y ys(1,2) by simp
qed

text \<open>
  C2. For every encoded element \<open>(bit, lowerBound, upperBound)\<close> the decoder reconstructs
  \<open>v-hat = (3 * upperBound + lowerBound) / 4\<close> when the bit is 1 and
  \<open>v-hat = (3 * lowerBound + upperBound) / 4\<close> when the bit is 0, on the 1-d tensors of
  the 512 chunk and on the 2-d tensors of the 1024 chunks.
\<close>

theorem decoder_estimate:
  assumes "length encs = length brs"
    and "length encs2 = length brs2"
    and "\<forall>r<length encs2. length (encs2 ! r) = length (brs2 ! r)"
  shows "\<exists>dec dec2. where_decode encs brs = Inr dec \<and> length dec = length encs
         \<and> (\<forall>i<length encs.
               (encs ! i = 1 \<longrightarrow> dec ! i = (3 * snd (brs ! i) + fst (brs ! i)) / 4)
             \<and> (encs ! i = 0 \<longrightarrow> dec ! i = (3 * fst (brs ! i) + snd (brs ! i)) / 4))
         \<and> where_decode2 encs2 brs2 = Inr dec2 \<and> length dec2 = length encs2
         \<and> (\<forall>r<length encs2. length (dec2 ! r) = length (encs2 ! r)
               \<and> (\<forall>j<length (encs2 ! r).
                     (encs2 ! r ! j = 1 \<longrightarrow> dec2 ! r ! j = (3 * snd (brs2 ! r ! j) + fst (brs2 ! r ! j)) / 4)
                   \<and> (encs2 ! r ! j = 0 \<longrightarrow> dec2 ! r ! j = (3 * fst (brs2 ! r ! j) + snd (brs2 ! r ! j)) / 4)))"
proof -
  let ?dec = "map2 dequantize encs brs"
  have one: "where_decode encs brs = Inr ?dec" "length ?dec = length encs"
    "\<forall>i<length encs.
               (encs ! i = 1 \<longrightarrow> ?dec ! i = (3 * snd (brs ! i) + fst (brs ! i)) / 4)
             \<and> (encs ! i = 0 \<longrightarrow> ?dec ! i = (3 * fst (brs ! i) + snd (brs ! i)) / 4)"
    using assms(1) by (simp_all add: where_decode_def) (simp add: dequantize_def)
  let ?f = "\<lambda>(e, b). where_decode e b"
  have ok: "\<exists>y. ?f x = Inr y" if "x \<in> set (zip encs2 brs2)" for x
  proof -
    from that obtain r where "r < length encs2" "x = (encs2 ! r, brs2 ! r)"
      using assms(2) by (auto simp: in_set_conv_nth)
    then show ?thesis using assms(3) by (simp add: where_decode_def)
  qed
  from map_result_nth [of "zip encs2 brs2" ?f, OF ok]
  obtain dec2 where d: "map_result ?f (zip encs2 brs2) = Inr dec2"
      "length dec2 = length (zip encs2 brs2)"
      "\<forall>i<length (zip encs2 brs2). ?f (zip encs2 brs2 ! i) = Inr (dec2 ! i)" by blast
  have row: "dec2 ! r = map2 dequantize (encs2 ! r) (brs2 ! r)" if "r < length encs2" for r
    using d(3) assms(2,3) that by (simp add: where_decode_def)
  have two: "where_decode2 encs2 brs2 = Inr dec2" "length dec2 = length encs2"
    using assms(2) d(1,2) by (simp_all add: where_decode2_def)
  have three: "\<forall>r<length encs2. length (dec2 ! r) = length (encs2 ! r)
               \<and> (\<forall>j<length (encs2 ! r).
                     (encs2 ! r ! j = 1 \<longrightarrow> dec2 ! r ! j = (3 * snd (brs2 ! r ! j) + fst (brs2 ! r ! j)) / 4)
                   \<and> (encs2 ! r ! j = 0 \<longrightarrow> dec2 ! r ! j = (3 * fst (brs2 ! r ! j) + snd (brs2 ! r ! j)) / 4))"
    using assms(3) by (simp add: row dequantize_def)
  from one two three show ?thesis by blast
qed

theorem decoder_estimate_witness:
  "\<exists>dec dec2. where_decode sample_encs sample_brs = Inr dec \<and> length dec = length sample_encs
         \<and> (\<forall>i<length sample_encs.
               (sample_encs ! i = 1 \<longrightarrow> dec ! i = (3 * snd (sample_brs ! i) + fst (sample_brs ! i)) / 4)
             \<and> (sample_encs ! i = 0 \<longrightarrow> dec ! i = (3 * fst (sample_brs ! i) + snd (sample_brs ! i)) / 4))
         \<and> where_decode2 [sample_encs, sample_encs] [sample_brs, sample_brs] = Inr dec2
         \<and> length dec2 = length [sample_encs, sample_encs]
         \<and> (\<forall>r<length [sample_encs, sample_encs]. length (dec2 ! r) = length ([sample_encs, sample_encs] ! r)
               \<and> (\<forall>j<length ([sample_encs, sample_encs] ! r).
                     ([sample_encs, sample_encs] ! r ! j = 1 \<longrightarrow> dec2 ! r ! j = (3 * snd ([sample_brs, sample_brs] ! r ! j) + fst ([sample_brs, sample_brs] ! r ! j)) / 4)
                   \<and> ([sample_encs, sample_encs] ! r ! j = 0 \<longrightarrow> dec2 ! r ! j = (3 * fst ([sample_brs, sample_brs] ! r ! j) + snd ([sample_brs, sample_brs] ! r ! j)) / 4)))"
  by (rule decoder_estimate) (simp_all add: sample_encs_def sample_brs_def nth_Cons split: nat.splits)

subsection \<open>The concrete scenario\<close>

lemma levels_scenario: "levels 4 0 3 = [0, 1, 2, 3]"
  by (simp add: levels_def upt_conv_Cons)

lemma scenario_min_max: "Min (set scenario_chunk) = 0" "Max (set scenario_chunk) = 3"
  by (simp_all add: scenario_chunk_def)

lemma interpolated_min_max: "Min (set interpolated_chunk) = 0" "Max (set interpolated_chunk) = 3"
  by (simp_all add: interpolated_chunk_def)

lemma scenario_brackets:
  "map (bracket_of [0, 1, 2, 3]) scenario_chunk = [(0, 1), (1, 2), (2, 3), (3, 3)]"
  by (simp add: scenario_chunk_def bracket_of_def searchsorted_right_def)

lemma interpolated_brackets:
  "map (bracket_of [0, 1, 2, 3]) interpolated_chunk = [(0, 1), (1, 2), (3, 3)]"
  by (simp add: interpolated_chunk_def bracket_of_def searchsorted_right_def)

lemma scenario_bits:
  "unit_draws u \<Longrightarrow> encode_bits u [0, 1, 2, 3] scenario_chunk = [0, 0, 0, 0]"
  by (simp add: encode_bits_def scenario_chunk_def bracket_of_def searchsorted_right_def
      prob_def unit_draws_def not_less upt_conv_Cons)

lemma interpolated_bits:
  "unit_draws u \<Longrightarrow> encode_bits u [0, 1, 2, 3] interpolated_chunk = [0, if u 1 < 1 / 2 then 1 else 0, 0]"
  by (simp add: encode_bits_def interpolated_chunk_def bracket_of_def searchsorted_right_def
      prob_def unit_draws_def not_less upt_conv_Cons)

lemma identity_4: "identity 4 = [[1, 0, 0, 0], [0, 1, 0, 0], [0, 0, 1, 0], [0, 0, 0, 1]]"
  by (simp add: identity_def upt_conv_Cons)

text \<open>
  C8. Concrete scenario: for the chunk \<open>[0, 1, 2, 3]\<close> with \<open>K = 4\<close> and the identity
  rotation the levels are \<open>[0, 1, 2, 3]\<close>; the element 0 gets \<open>r = 0\<close>, bracket \<open>(0, 1)\<close>,
  \<open>p = 0\<close>, bit 0 and decodes to \<open>1/4\<close>; the element 3 gets bracket \<open>(3, 3)\<close>, \<open>p = 0\<close>,
  bit 0 and decodes to 3; a value \<open>3/2\<close> among the same levels gets \<open>r = 1\<close>, bracket
  \<open>(1, 2)\<close> and \<open>p = 1/2\<close>, decodes to \<open>7/4\<close> with bit 1 and to \<open>5/4\<close> with bit 0, and
  the mean of its decoded estimate is \<open>3/2\<close>.
\<close>

theorem concrete_scenario:
  assumes "unit_draws u"
  shows "rotate_vec (identity 4) scenario_chunk = Inr scenario_chunk
       \<and> encoder_levels 4 scenario_chunk = Inr [0, 1, 2, 3]
       \<and> encoder_ids [0, 1, 2, 3] scenario_chunk = [0, 1, 2, 3]
       \<and> encoder 4 u scenario_chunk = Inr ([0, 0, 0, 0], [(0, 1), (1, 2), (2, 3), (3, 3)])
       \<and> encoder_probs scenario_chunk [(0, 1), (1, 2), (2, 3), (3, 3)] = [0, 0, 0, 0]
       \<and> where_decode [0, 0, 0, 0] [(0, 1), (1, 2), (2, 3), (3, 3)] = Inr [1 / 4, 5 / 4, 9 / 4, 3]
       \<and> encoder_levels 4 interpolated_chunk = Inr [0, 1, 2, 3]
       \<and> encoder_ids [0, 1, 2, 3] interpolated_chunk = [0, 1, 3]
       \<and> encoder 4 u interpolated_chunk
           = Inr ([0, if u 1 < 1 / 2 then 1 else 0, 0], [(0, 1), (1, 2), (3, 3)])
       \<and> encoder_probs interpolated_chunk [(0, 1), (1, 2), (3, 3)] = [0, 1 / 2, 0]
       \<and> dequantize 1 (1, 2) = 7 / 4 \<and> dequantize 0 (1, 2) = 5 / 4
       \<and> mean_decode (1 / 2) (1, 2) = 3 / 2"
proof -
  have rot: "rotate_vec (identity 4) scenario_chunk = Inr scenario_chunk"
    by (simp add: rotate_vec_def matvec_def identity_4 dot_def scenario_chunk_def)
  have l1: "encoder_levels 4 scenario_chunk = Inr [0, 1, 2, 3]"
    using encoder_levels_nonempty [of scenario_chunk 4]
    by (simp add: scenario_min_max levels_scenario) (simp add: scenario_chunk_def)
  have i1: "encoder_ids [0, 1, 2, 3] scenario_chunk = [0, 1, 2, 3]"
    by (simp add: encoder_ids_def scenario_chunk_def searchsorted_right_def)
  have e1: "encoder 4 u scenario_chunk = Inr ([0, 0, 0, 0], [(0, 1), (1, 2), (2, 3), (3, 3)])"
    using encoder_returns [of 4 scenario_chunk u] assms
    by (simp add: scenario_min_max levels_scenario scenario_brackets scenario_bits)
       (simp add: scenario_chunk_def)
  have p1: "encoder_probs scenario_chunk [(0, 1), (1, 2), (2, 3), (3, 3)] = [0, 0, 0, 0]"
    by (simp add: encoder_probs_def scenario_chunk_def prob_def)
  have d1: "where_decode [0, 0, 0, 0] [(0, 1), (1, 2), (2, 3), (3, 3)] = Inr [1 / 4, 5 / 4, 9 / 4, 3]"
    by (simp add: where_decode_def dequantize_def)
  have l2: "encoder_levels 4 interpolated_chunk = Inr [0, 1, 2, 3]"
    using encoder_levels_nonempty [of interpolated_chunk 4]
    by (simp add: interpolated_min_max levels_scenario) (simp add: interpolated_chunk_def)
  have i2: "encoder_ids [0, 1, 2, 3] interpolated_chunk = [0, 1, 3]"
    by (simp add: encoder_ids_def interpolated_chunk_def searchsorted_right_def)
  have e2: "encoder 4 u interpolated_chunk
           = Inr ([0, if u 1 < 1 / 2 then 1 else 0, 0], [(0, 1), (1, 2), (3, 3)])"
    using encoder_returns [of 4 interpolated_chunk u] assms
    by (simp add: interpolated_min_max levels_scenario interpolated_brackets interpolated_bits)
       (simp add: interpolated_chunk_def)
  have p2: "encoder_probs interpolated_chunk [(0, 1), (1, 2), (3, 3)] = [0, 1 / 2, 0]"
    by (simp add: encoder_probs_def interpolated_chunk_def prob_def)
  have dq: "dequantize 1 (1, 2) = 7 / 4" "dequantize 0 (1, 2) = 5 / 4"
    by (simp_all add: dequantize_def)
  have m: "mean_decode (1 / 2) (1, 2) = 3 / 2"
    by (simp add: mean_decode_def bernoulli_mean_def dequantize_def)
  from rot l1 i1 e1 p1 d1 l2 i2 e2 p2 dq m show ?thesis by simp
qed

theorem concrete_scenario_witness:
  "rotate_vec (identity 4) scenario_chunk = Inr scenario_chunk
       \<and> encoder_levels 4 scenario_chunk = Inr [0, 1, 2, 3]
       \<and> encoder_ids [0, 1, 2, 3] scenario_chunk = [0, 1, 2, 3]
       \<and> encoder 4 half_draws scenario_chunk = Inr ([0, 0, 0, 0], [(0, 1), (1, 2), (2, 3), (3, 3)])
       \<and> encoder_probs scenario_chunk [(0, 1), (1, 2), (2, 3), (3, 3)] = [0, 0, 0, 0]
       \<and> where_decode [0, 0, 0, 0] [(0, 1), (1, 2), (2, 3), (3, 3)] = Inr [1 / 4, 5 / 4, 9 / 4, 3]
       \<and> encoder_levels 4 interpolated_chunk = Inr [0, 1, 2, 3]
       \<and> encoder_ids [0, 1, 2, 3] interpolated_chunk = [0, 1, 3]
       \<and> encoder 4 half_draws interpolated_chunk
           = Inr ([0, if half_draws 1 < 1 / 2 then 1 else 0, 0], [(0, 1), (1, 2), (3, 3)])
       \<and> encoder_probs interpolated_chunk [(0, 1), (1, 2), (3, 3)] = [0, 1 / 2, 0]
       \<and> dequantize 1 (1, 2) = 7 / 4 \<and> dequantize 0 (1, 2) = 5 / 4
       \<and> mean_decode (1 / 2) (1, 2) = 3 / 2"
  by (rule concrete_scenario) (simp add: unit_draws_def half_draws_def)

theorem scenario_mean_counterexample:
  "mean_decode (encoder_probs interpolated_chunk [(0, 1), (1, 2), (3, 3)] ! 1) (1, 2) \<noteq> 7 / 4"
  by (simp add: encoder_probs_def interpolated_chunk_def prob_def mean_decode_def
      bernoulli_mean_def dequantize_def)

subsection \<open>The level count\<close>

lemma encoder_K0:
  assumes "params \<noteq> []"
  shows "encoder 0 u params = Inl IndexError"
proof -
  obtain v vs where p: "params = v # vs" using assms by (cases params) auto
  have "lookup_pair [] (clip_pt 0 (int (searchsorted_right [] v) - 1),
                       clip_pt 0 (int (searchsorted_right [] v) - 1 + 1)) = Inl IndexError"
    by (simp add: lookup_pair_def clip_pt_def searchsorted_right_def tensor_index_def)
  then have "encoder_brs [] (encoder_pts 0 (encoder_ids [] params)) = Inl IndexError"
    by (simp add: p encoder_brs_def encoder_pts_def encoder_ids_def)
  moreover have "encoder_levels 0 params = Inr []"
    using encoder_levels_nonempty [OF assms, of 0] by (simp add: levels_def)
  ultimately show ?thesis by (simp add: encoder_def)
qed

lemma encoder_K1:
  assumes "params \<noteq> []"
  shows "encoder 1 u params = Inl RuntimeError"
  using encoder_levels_nonempty [OF assms, of 1] by (simp add: encoder_def)

lemma encoder_empty: "encoder K u [] = Inl RuntimeError"
  by (simp add: encoder_def encoder_levels_def torch_max_def)

text \<open>
  C9. The encoder has no check of the level count and no error of its own for it. On a
  chunk with at least one element it returns a result for every \<open>K \<ge> 2\<close> and fails for
  \<open>K < 2\<close> with the errors of the library: the IndexError of the level lookup for
  \<open>K = 0\<close>, where there is no level, and the RuntimeError of the draw for \<open>K = 1\<close>, where
  the division by \<open>K - 1 = 0\<close> gives NaN probabilities.
\<close>

theorem encoder_level_count:
  assumes "chunk \<noteq> []"
  shows "(2 \<le> K \<longrightarrow> (\<exists>encs brs. encoder K u chunk = Inr (encs, brs)))
       \<and> (K = 1 \<longrightarrow> encoder K u chunk = Inl RuntimeError)
       \<and> (K = 0 \<longrightarrow> encoder K u chunk = Inl IndexError)
       \<and> ((\<exists>e. encoder K u chunk = Inl e) \<longleftrightarrow> K < 2)"
proof -
  have ge: "\<exists>encs brs. encoder K u chunk = Inr (encs, brs)" if "2 \<le> K"
    using encoder_returns [OF that assms, of u] by blast
  have k1: "encoder K u chunk = Inl RuntimeError" if "K = 1"
    using that encoder_K1 [OF assms] by simp
  have k0: "encoder K u chunk = Inl IndexError" if "K = 0"
    using that encoder_K0 [OF assms] by simp
  have "(\<exists>e. encoder K u chunk = Inl e) \<longleftrightarrow> K < 2"
  proof (cases "2 \<le> K")
    case True
    with ge show ?thesis by auto
  next
    case False
    then have "K = 0 \<or> K = 1" by auto
    with k0 k1 False show ?thesis by auto
  qed
  with ge k1 k0 show ?thesis by blast
qed

theorem encoder_level_count_witness:
  "scenario_chunk \<noteq> []
     \<and> (\<exists>encs brs. encoder 4 half_draws scenario_chunk = Inr (encs, brs))
     \<and> \<not> (\<exists>e. encoder 4 half_draws scenario_chunk = Inl e)
     \<and> encoder 1 half_draws scenario_chunk = Inl RuntimeError
     \<and> encoder 0 half_draws scenario_chunk = Inl IndexError"
proof -
  have ne: "scenario_chunk \<noteq> []" by (simp add: scenario_chunk_def)
  from encoder_level_count [OF ne, where K = 4 and u = half_draws]
  have "(\<exists>encs brs. encoder 4 half_draws scenario_chunk = Inr (encs, brs))
      \<and> \<not> (\<exists>e. encoder 4 half_draws scenario_chunk = Inl e)" by simp
  moreover from encoder_level_count [OF ne, where K = 1 and u = half_draws]
  have "encoder 1 half_draws scenario_chunk = Inl RuntimeError" by simp
  moreover from encoder_level_count [OF ne, where K = 0 and u = half_draws]
  have "encoder 0 half_draws scenario_chunk = Inl IndexError" by simp
  ultimately show ?thesis using ne by blast
qed

theorem encoder_level_count_counterexample:
  "encoder 0 half_draws scenario_chunk = Inl IndexError"
  by (rule encoder_K0) (simp add: scenario_chunk_def)

subsection \<open>Rotation invertibility\<close>

lemma dot_sum:
  assumes "length xs = n" and "length ys = n"
  shows "dot xs ys = (\<Sum>i<n. xs ! i * ys ! i)"
proof -
  have "dot xs ys = (\<Sum>i = 0..<length (map2 (*) xs ys). map2 (*) xs ys ! i)"
    unfolding dot_def by (rule sum_list_sum_nth)
  also have "\<dots> = (\<Sum>i = 0..<n. xs ! i * ys ! i)"
    using assms by (intro sum.cong) simp_all
  finally show ?thesis by (simp add: atLeast0LessThan)
qed

lemma tensor_T_rect:
  assumes "X \<noteq> []" and "\<forall>row \<in> set X. length row = n"
  shows "tensor_T X = map (\<lambda>j. map (\<lambda>row. row ! j) X) [0..<n]"
proof -
  have "hd X \<in> set X" using assms(1) by simp
  then have "length (hd X) = n" using assms(2) by blast
  then show ?thesis using assms(1) by (simp add: tensor_T_def)
qed

lemma tensor_T_square:
  assumes "square n R"
  shows "tensor_T R = map (\<lambda>j. map (\<lambda>row. row ! j) R) [0..<n]"
proof (cases "R = []")
  case True
  then show ?thesis using assms by (simp add: tensor_T_def square_def)
next
  case False
  then show ?thesis using assms by (intro tensor_T_rect) (simp_all add: square_def)
qed

lemma tensor_T_twice:
  assumes "X \<noteq> []" and "\<forall>row \<in> set X. length row = n" and "0 < n"
  shows "tensor_T (tensor_T X) = X"
proof -
  let ?C = "map (\<lambda>j. map (\<lambda>row. row ! j) X) [0..<n]"
  have C: "tensor_T X = ?C" using assms(1,2) by (rule tensor_T_rect)
  have ne: "?C \<noteq> []" using assms(3) by simp
  have len: "\<forall>col \<in> set ?C. length col = length X" by simp
  have "tensor_T ?C = map (\<lambda>i. map (\<lambda>col. col ! i) ?C) [0..<length X]"
    using ne len by (rule tensor_T_rect)
  also have "\<dots> = X"
  proof (rule nth_equalityI)
    show "length (map (\<lambda>i. map (\<lambda>col. col ! i) ?C) [0..<length X]) = length X" by simp
  next
    fix i assume "i < length (map (\<lambda>i. map (\<lambda>col. col ! i) ?C) [0..<length X])"
    then have i: "i < length X" by simp
    then have li: "length (X ! i) = n" using assms(2) by simp
    have "map (\<lambda>col. col ! i) ?C = X ! i"
      using i li by (intro nth_equalityI) simp_all
    then show "map (\<lambda>i. map (\<lambda>col. col ! i) ?C) [0..<length X] ! i = X ! i"
      using i by simp
  qed
  finally show ?thesis using C by simp
qed

lemma matvec_square:
  "square n R \<Longrightarrow> length x = n \<Longrightarrow> matvec R x = Inr (map (\<lambda>row. dot row x) R)"
  by (simp add: matvec_def square_def)

lemma inverse_entries:
  assumes "square n Ri" and "square n R" and "matmul Ri R = Inr (identity n)"
    and "i < n" and "j < n"
  shows "(\<Sum>k<n. Ri ! i ! k * R ! k ! j) = (if i = j then 1 else 0)"
proof -
  have rows: "\<forall>row \<in> set Ri. length row = length R" using assms(1,2) by (simp add: square_def)
  have "map (\<lambda>row. map (\<lambda>col. dot row col) (tensor_T R)) Ri = identity n"
    using assms(3) rows by (simp add: matmul_def)
  then have "map (\<lambda>row. map (\<lambda>col. dot row col) (tensor_T R)) Ri ! i ! j = identity n ! i ! j"
    by simp
  moreover have "identity n ! i ! j = (if i = j then 1 else 0)"
    using assms(4,5) by (simp add: identity_def)
  moreover have "map (\<lambda>row. map (\<lambda>col. dot row col) (tensor_T R)) Ri ! i ! j
      = dot (Ri ! i) (map (\<lambda>row. row ! j) R)"
    using assms(1,4,5) by (simp add: tensor_T_square [OF assms(2)] square_def)
  moreover have "dot (Ri ! i) (map (\<lambda>row. row ! j) R) = (\<Sum>k<n. Ri ! i ! k * R ! k ! j)"
  proof -
    have "dot (Ri ! i) (map (\<lambda>row. row ! j) R) = (\<Sum>k<n. Ri ! i ! k * map (\<lambda>row. row ! j) R ! k)"
      using assms(1,2,4) by (intro dot_sum) (simp_all add: square_def)
    also have "\<dots> = (\<Sum>k<n. Ri ! i ! k * R ! k ! j)"
      using assms(2) by (intro sum.cong) (simp_all add: square_def)
    finally show ?thesis .
  qed
  ultimately show ?thesis by simp
qed

lemma inverse_product:
  assumes "square n Ri" and "square n R" and "matmul Ri R = Inr (identity n)"
    and "length x = n"
  shows "map (\<lambda>row. dot row (map (\<lambda>r. dot r x) R)) Ri = x"
proof (rule nth_equalityI)
  show "length (map (\<lambda>row. dot row (map (\<lambda>r. dot r x) R)) Ri) = length x"
    using assms(1,4) by (simp add: square_def)
next
  fix i assume "i < length (map (\<lambda>row. dot row (map (\<lambda>r. dot r x) R)) Ri)"
  then have i: "i < n" using assms(1) by (simp add: square_def)
  have lenRi: "length (Ri ! i) = n" using assms(1) i by (simp add: square_def)
  have lenR: "length R = n" "\<And>k. k < n \<Longrightarrow> length (R ! k) = n"
    using assms(2) by (simp_all add: square_def)
  have "dot (Ri ! i) (map (\<lambda>r. dot r x) R) = (\<Sum>k<n. Ri ! i ! k * map (\<lambda>r. dot r x) R ! k)"
    using lenRi lenR(1) by (intro dot_sum) simp_all
  also have "\<dots> = (\<Sum>k<n. Ri ! i ! k * (\<Sum>j<n. R ! k ! j * x ! j))"
    using lenR assms(4) by (intro sum.cong) (simp_all add: dot_sum)
  also have "\<dots> = (\<Sum>k<n. \<Sum>j<n. Ri ! i ! k * R ! k ! j * x ! j)"
    by (simp add: sum_distrib_left mult.assoc)
  also have "\<dots> = (\<Sum>j<n. \<Sum>k<n. Ri ! i ! k * R ! k ! j * x ! j)"
    by (rule sum.swap)
  also have "\<dots> = (\<Sum>j<n. (\<Sum>k<n. Ri ! i ! k * R ! k ! j) * x ! j)"
    by (simp add: sum_distrib_right)
  also have "\<dots> = (\<Sum>j<n. (if i = j then 1 else 0) * x ! j)"
    using inverse_entries [OF assms(1,2,3) i] by (intro sum.cong) simp_all
  also have "\<dots> = x ! i"
    using i by (simp add: if_distrib [of "\<lambda>c. c * _"] sum.delta' cong: if_cong)
  finally show "map (\<lambda>row. dot row (map (\<lambda>r. dot r x) R)) Ri ! i = x ! i"
    using i assms(1) by (simp add: square_def)
qed

lemma rotate_rows_eq:
  assumes "square n R" and "0 < n" and "X \<noteq> []" and "\<forall>row \<in> set X. length row = n"
  shows "rotate_rows R X = Inr (map (\<lambda>x. map (\<lambda>row. dot row x) R) X)"
proof -
  have lenT: "length (tensor_T X) = n" using tensor_T_rect [OF assms(3,4)] by simp
  have chk: "\<forall>row \<in> set R. length row = length (tensor_T X)"
    using assms(1) lenT by (simp add: square_def)
  let ?Y = "map (\<lambda>row. map (\<lambda>col. dot row col) X) R"
  have mm: "matmul R (tensor_T X) = Inr ?Y"
    using chk by (simp add: matmul_def tensor_T_twice [OF assms(3,4,2)])
  have Yne: "?Y \<noteq> []" using assms(1,2) by (auto simp: square_def)
  have Ylen: "\<forall>row \<in> set ?Y. length row = length X" by simp
  have "tensor_T ?Y = map (\<lambda>j. map (\<lambda>row. row ! j) ?Y) [0..<length X]"
    using Yne Ylen by (rule tensor_T_rect)
  also have "\<dots> = map (\<lambda>x. map (\<lambda>row. dot row x) R) X"
    by (rule nth_equalityI) simp_all
  finally show ?thesis by (simp add: rotate_rows_def mm)
qed

lemma unrotate_rows_eq:
  assumes "linalg_inv R = Inr Ri" and "square n Ri" and "0 < n" and "D \<noteq> []"
    and "\<forall>row \<in> set D. length row = n"
  shows "unrotate_rows linalg_inv R D = Inr (map (\<lambda>x. map (\<lambda>row. dot row x) Ri) D)"
  using rotate_rows_eq [OF assms(2,3,4,5)] by (simp add: unrotate_rows_def rotate_rows_def assms(1))

text \<open>
  C6. Rotation invertibility: for a chunk \<open>x\<close> and its rotation matrix \<open>R\<close>, of which
  \<^verbatim>\<open>torch.linalg.inv\<close> returns the inverse, the forward transform \<open>R x\<close> of the encoding
  followed by the inverse transform of the decoding gives \<open>x\<close> back, whatever lies between
  them; so it is for a single chunk as a vector and for chunks batched as the rows of \<open>X\<close>,
  where the transforms are computed as \<open>(R X\<^sup>T)\<^sup>T\<close>.
\<close>

theorem rotation_invertibility:
  assumes "0 < n" and "inverse_at linalg_inv n R" and "length x = n"
    and "X \<noteq> []" and "\<forall>row \<in> set X. length row = n"
  shows "and_then (rotate_vec R x) (unrotate_vec linalg_inv R) = Inr x
       \<and> and_then (rotate_rows R X) (unrotate_rows linalg_inv R) = Inr X"
proof -
  from assms(2) obtain Ri where Ri: "linalg_inv R = Inr Ri" "square n Ri"
      "matmul Ri R = Inr (identity n)" and R: "square n R"
    by (auto simp: inverse_at_def split: sum.splits)
  have lenR: "length (map (\<lambda>row. dot row y) R) = n" for y
    using R by (simp add: square_def)
  have vec: "and_then (rotate_vec R x) (unrotate_vec linalg_inv R) = Inr x"
    using matvec_square [OF R assms(3)] matvec_square [OF Ri(2) lenR, of x]
      inverse_product [OF Ri(2) R Ri(3) assms(3)]
    by (simp add: rotate_vec_def unrotate_vec_def Ri(1))
  let ?Y = "map (\<lambda>x. map (\<lambda>row. dot row x) R) X"
  have Yne: "?Y \<noteq> []" using assms(4) by simp
  have Ylen: "\<forall>row \<in> set ?Y. length row = n" using R by (simp add: square_def)
  have "map (\<lambda>y. map (\<lambda>row. dot row y) Ri) ?Y = X"
  proof (rule nth_equalityI)
    show "length (map (\<lambda>y. map (\<lambda>row. dot row y) Ri) ?Y) = length X" by simp
  next
    fix i assume "i < length (map (\<lambda>y. map (\<lambda>row. dot row y) Ri) ?Y)"
    then have i: "i < length X" by simp
    then have "length (X ! i) = n" using assms(5) by simp
    from inverse_product [OF Ri(2) R Ri(3) this] i
    show "map (\<lambda>y. map (\<lambda>row. dot row y) Ri) ?Y ! i = X ! i" by simp
  qed
  then have rows: "and_then (rotate_rows R X) (unrotate_rows linalg_inv R) = Inr X"
    using rotate_rows_eq [OF R assms(1,4,5)] unrotate_rows_eq [where linalg_inv = linalg_inv and R = R and Ri = Ri and n = n and D = "?Y", OF Ri(1,2) assms(1) Yne Ylen]
    by simp
  from vec rows show ?thesis ..
qed

theorem rotation_invertibility_witness:
  "and_then (rotate_vec quarter_turn [1, 2]) (unrotate_vec sample_inv quarter_turn) = Inr [1, 2]
   \<and> and_then (rotate_rows quarter_turn sample_batch) (unrotate_rows sample_inv quarter_turn)
       = Inr sample_batch"
  by (rule rotation_invertibility [where n = 2])
     (simp_all add: inverse_at_def sample_inv_def quarter_turn_def quarter_turn_back_def
        sample_batch_def square_def matmul_def tensor_T_def identity_def dot_def upt_conv_Cons)

subsection \<open>Chunking and reassembly\<close>

declare ceil_log2.simps [simp del]

lemma concat_pieces:
  "concat (map (\<lambda>i. take n (drop (i * n) xs)) [0..<q]) = take (q * n) xs"
proof (induction q)
  case 0
  then show ?case by simp
next
  case (Suc q)
  have "take (q * n) xs @ take n (drop (q * n) xs) = take (q * n + n) xs"
    by (simp add: take_add)
  with Suc show ?case by (simp add: add.commute)
qed

lemma torch_split_full:
  assumes "length xs = q * 1024"
  shows "torch_split xs 1024 = map (\<lambda>i. take 1024 (drop (i * 1024) xs)) [0..<max q 1]"
proof -
  have "(q * 1024 + 1024 - 1) div 1024 = q" by simp
  then show ?thesis using assms by (simp add: torch_split_def)
qed

lemma torch_split_concat:
  assumes "length xs = q * 1024"
  shows "concat (torch_split xs 1024) = xs"
proof -
  have "concat (torch_split xs 1024) = take (max q 1 * 1024) xs"
    unfolding torch_split_full [OF assms] by (rule concat_pieces)
  also have "\<dots> = xs" using assms by (simp add: max_def)
  finally show ?thesis .
qed

lemma torch_split_rows:
  assumes "length xs = q * 1024" and "row \<in> set (torch_split xs 1024)"
  shows "length row = (if q = 0 then 0 else 1024)"
proof -
  from assms(2) obtain i where i: "i < max q 1" "row = take 1024 (drop (i * 1024) xs)"
    unfolding torch_split_full [OF assms(1)] by auto
  show ?thesis
  proof (cases "q = 0")
    case True
    then show ?thesis using i assms(1) by simp
  next
    case False
    then have "i < q" using i(1) by simp
    then have "Suc i \<le> q" by simp
    then have "Suc i * 1024 \<le> q * 1024" by (rule mult_le_mono1)
    then have "1024 \<le> q * 1024 - i * 1024" by simp
    then show ?thesis using i(2) assms(1) False by simp
  qed
qed

lemma length_torch_split:
  "length xs = q * 1024 \<Longrightarrow> length (torch_split xs 1024) = max q 1"
  by (simp add: torch_split_full)

lemma torch_stack_Inr:
  assumes ne: "ts \<noteq> []" and same: "\<forall>t \<in> set ts. length t = length (hd ts)"
  shows "torch_stack ts = Inr ts"
proof -
  have 1: "(if ts = [] then Inl RuntimeError else X) = X" for X :: "error + real list list"
    using ne by (rule if_not_P)
  have 2: "(if \<forall>t \<in> set ts. length t = length (hd ts) then Inr ts else Inl RuntimeError) = Inr ts"
    using same by (rule if_P)
  show ?thesis unfolding torch_stack_def 1 2 by (rule refl)
qed

lemma chunks1024_rows:
  fixes flat :: "real list"
  defines "q \<equiv> length flat div 1024"
  shows "chunks1024 flat = Inr (torch_split (take (q * 1024) flat) 1024)"
    and "concat (torch_split (take (q * 1024) flat) 1024) = take (q * 1024) flat"
    and "\<And>row. row \<in> set (torch_split (take (q * 1024) flat) 1024) \<Longrightarrow>
           length row = (if q = 0 then 0 else 1024)"
    and "length (torch_split (take (q * 1024) flat) 1024) = max q 1"
proof -
  let ?xs = "take (q * 1024) flat"
  have m: "length flat - length flat mod 1024 = q * 1024"
    unfolding q_def by (simp add: minus_mod_eq_div_mult)
  have len: "length ?xs = q * 1024"
    unfolding q_def by simp
  have rows: "\<And>row. row \<in> set (torch_split ?xs 1024) \<Longrightarrow> length row = (if q = 0 then 0 else 1024)"
    using len by (rule torch_split_rows)
  have ne: "torch_split ?xs 1024 \<noteq> []"
    using length_torch_split [OF len] by auto
  then have "hd (torch_split ?xs 1024) \<in> set (torch_split ?xs 1024)" by simp
  then have "\<forall>t \<in> set (torch_split ?xs 1024). length t = length (hd (torch_split ?xs 1024))"
    using rows by simp
  with ne have "torch_stack (torch_split ?xs 1024) = Inr (torch_split ?xs 1024)"
    by (rule torch_stack_Inr)
  then show "chunks1024 flat = Inr (torch_split ?xs 1024)"
    unfolding chunks1024_def m .
  show "concat (torch_split ?xs 1024) = ?xs" using len by (rule torch_split_concat)
  show "\<And>row. row \<in> set (torch_split ?xs 1024) \<Longrightarrow> length row = (if q = 0 then 0 else 1024)"
    by (rule rows)
  show "length (torch_split ?xs 1024) = max q 1" using len by (rule length_torch_split)
qed

lemma remainder_slice_eq:
  "remainder_slice flat =
     (if length flat mod 1024 = 0 then flat else drop (length flat - length flat mod 1024) flat)"
proof (cases "length flat mod 1024 = 0")
  case True
  then show ?thesis by (simp add: remainder_slice_def slice_from_def)
next
  case False
  have "length flat mod 1024 \<le> length flat" by (rule mod_less_eq_dividend)
  then have "nat (int (length flat) - int (length flat mod 1024)) = length flat - length flat mod 1024"
    by simp
  then show ?thesis using False by (simp add: remainder_slice_def slice_from_def)
qed

lemma length_remainder_slice:
  "length flat mod 1024 \<noteq> 0 \<Longrightarrow> length (remainder_slice flat) = length flat mod 1024"
  by (simp add: remainder_slice_eq)

lemma ceil_log2_bound: "n \<le> 2 ^ ceil_log2 n"
proof (induction n rule: ceil_log2.induct)
  case (1 n)
  show ?case
  proof (cases "n \<le> 1")
    case True
    then show ?thesis by (simp add: ceil_log2.simps [of n])
  next
    case False
    with 1 have "(n + 1) div 2 \<le> 2 ^ ceil_log2 ((n + 1) div 2)" by simp
    moreover have "n \<le> 2 * ((n + 1) div 2)" by simp
    ultimately have "n \<le> 2 * 2 ^ ceil_log2 ((n + 1) div 2)" by linarith
    then show ?thesis using False by (simp add: ceil_log2.simps [of n])
  qed
qed

lemma ceil_log2_Suc0: "ceil_log2 (Suc 0) = 0"
  by (simp add: ceil_log2.simps [of "Suc 0"])

lemma ceil_log2_2: "ceil_log2 2 = Suc 0"
  by (simp add: ceil_log2.simps [of 2] ceil_log2_Suc0)

lemma ceil_log2_between:
  "2 ^ k < n \<Longrightarrow> n \<le> 2 ^ Suc k \<Longrightarrow> ceil_log2 n = Suc k"
proof (induction k arbitrary: n)
  case 0
  then have "n = 2" by simp
  then show ?case by (simp only: ceil_log2_2)
next
  case (Suc k)
  from Suc.prems have "2 ^ k < (n + 1) div 2" "(n + 1) div 2 \<le> 2 ^ Suc k" by auto
  then have "ceil_log2 ((n + 1) div 2) = Suc k" by (rule Suc.IH)
  moreover have "(1::nat) \<le> 2 ^ k" by simp
  then have "\<not> n \<le> 1" using Suc.prems(1) by (simp only: power_Suc)
  ultimately show ?case by (simp add: ceil_log2.simps [of n])
qed

lemma next_pow2_ge: "n \<le> next_pow2 n"
  using ceil_log2_bound [of n] by (simp add: next_pow2_def)

lemma next_pow2_512: "256 < n \<Longrightarrow> n \<le> 512 \<Longrightarrow> next_pow2 n = 512"
  using ceil_log2_between [of 8 n] by (simp add: next_pow2_def)

lemma next_pow2_1024: "512 < n \<Longrightarrow> n \<le> 1024 \<Longrightarrow> next_pow2 n = 1024"
  using ceil_log2_between [of 9 n] by (simp add: next_pow2_def)

lemma length_chunk512:
  "length (chunk512 flat) = next_pow2 (length (remainder_slice flat))"
  using next_pow2_ge [of "length (remainder_slice flat)"]
  by (simp add: chunk512_def Let_def pad_count_def)

lemma revert_layers:
  "take (length (concat layers)) (drop ptr dec) = concat layers \<Longrightarrow>
     revert (map length layers) ptr dec = Inr layers"
proof (induction layers arbitrary: ptr)
  case Nil
  then show ?case by simp
next
  case (Cons l ls)
  let ?d = "drop ptr dec"
  from Cons.prems have eq: "take (length l + length (concat ls)) ?d = l @ concat ls" by simp
  then have "take (length l) (take (length l + length (concat ls)) ?d) = l" by simp
  then have hd: "take (length l) ?d = l" by (simp add: min_def)
  from eq have "drop (length l) (take (length l + length (concat ls)) ?d) = concat ls" by simp
  then have "take (length (concat ls)) (drop (length l) ?d) = concat ls"
    by (simp add: drop_take)
  then have "take (length (concat ls)) (drop (ptr + length l) dec) = concat ls"
    by (simp add: add.commute)
  then have "revert (map length ls) (ptr + length l) dec = Inr ls" by (rule Cons.IH)
  then show ?case using hd by (simp add: Let_def)
qed

lemma revert_slices:
  "ptr + sum_list sizes \<le> length dec \<Longrightarrow>
     \<exists>slices. revert sizes ptr dec = Inr slices \<and> map length slices = sizes
        \<and> concat slices = take (sum_list sizes) (drop ptr dec)"
proof (induction sizes arbitrary: ptr)
  case Nil
  then show ?case by simp
next
  case (Cons n ns)
  then have "(ptr + n) + sum_list ns \<le> length dec" by simp
  from Cons.IH [OF this] obtain slices where s: "revert ns (ptr + n) dec = Inr slices"
      "map length slices = ns" "concat slices = take (sum_list ns) (drop (ptr + n) dec)" by blast
  have len: "length (take n (drop ptr dec)) = n" using Cons.prems by simp
  have "take n (drop ptr dec) @ take (sum_list ns) (drop (ptr + n) dec)
        = take (n + sum_list ns) (drop ptr dec)"
    by (simp add: take_add add.commute)
  then show ?case using s len by (simp add: Let_def)
qed

lemma split_point: "length v - length v mod 1024 = length v div 1024 * 1024"
  by (simp add: minus_mod_eq_div_mult)

lemma chunks1024_eq:
  fixes v :: "real list"
  shows "chunks1024 v = Inr (torch_split (take (length v - length v mod 1024) v) 1024)"
  using chunks1024_rows(1) [of v] by (simp only: split_point)

lemma rows_concat:
  fixes v :: "real list"
  shows "concat (torch_split (take (length v - length v mod 1024) v) 1024)
         = take (length v - length v mod 1024) v"
  using chunks1024_rows(2) [of v] by (simp only: split_point)

lemma rows_full:
  fixes v :: "real list"
  assumes "1024 \<le> length v"
  shows "length (torch_split (take (length v - length v mod 1024) v) 1024) = length v div 1024"
    and "\<forall>row \<in> set (torch_split (take (length v - length v mod 1024) v) 1024). length row = 1024"
proof -
  from assms have q: "0 < length v div 1024" by (simp add: div_greater_zero_iff)
  then have m: "max (length v div 1024) 1 = length v div 1024" by simp
  show "length (torch_split (take (length v - length v mod 1024) v) 1024) = length v div 1024"
    using chunks1024_rows(4) [of v] by (simp only: split_point m)
  have "length row = 1024"
    if "row \<in> set (torch_split (take (length v - length v mod 1024) v) 1024)" for row
  proof -
    from that have "row \<in> set (torch_split (take (length v div 1024 * 1024) v) 1024)"
      by (simp only: split_point)
    then have "length row = (if length v div 1024 = 0 then 0 else 1024)"
      by (rule chunks1024_rows(3))
    with q show ?thesis by simp
  qed
  then show "\<forall>row \<in> set (torch_split (take (length v - length v mod 1024) v) 1024). length row = 1024"
    by blast
qed

lemma rows_empty:
  fixes v :: "real list"
  shows "length v < 1024 \<Longrightarrow> torch_split (take (length v - length v mod 1024) v) 1024 = [[]]"
  by (simp add: torch_split_def)

lemma chunk512_eq:
  assumes "length v mod 1024 \<noteq> 0"
  shows "chunk512 v = drop (length v - length v mod 1024) v
           @ replicate (next_pow2 (length v mod 1024) - length v mod 1024) 0"
proof -
  have "remainder_slice v = drop (length v - length v mod 1024) v"
    using assms by (simp add: remainder_slice_eq)
  moreover have "length (remainder_slice v) = length v mod 1024"
    using assms by (rule length_remainder_slice)
  ultimately show ?thesis by (simp only: chunk512_def Let_def pad_count_def)
qed

lemma chunk512_prefix: "take (length (remainder_slice v)) (chunk512 v) = remainder_slice v"
  by (simp add: chunk512_def Let_def)

lemma merged_remainder:
  assumes "length v mod 1024 \<noteq> 0"
  shows "take (length v - length v mod 1024) v @ chunk512 v
         = v @ replicate (next_pow2 (length v mod 1024) - length v mod 1024) 0"
  unfolding chunk512_eq [OF assms] by simp

lemma merged_take:
  "take (length v) (take (length v - length v mod 1024) v @ chunk512 v) = v"
proof (cases "length v mod 1024 = 0")
  case True
  then show ?thesis by simp
next
  case False
  then show ?thesis unfolding merged_remainder [OF False] by simp
qed

lemma next_pow2_between:
  "2 ^ k < n \<Longrightarrow> n \<le> 2 ^ Suc k \<Longrightarrow> next_pow2 n = 2 ^ Suc k"
proof -
  assume a: "2 ^ k < n" "n \<le> 2 ^ Suc k"
  then have "ceil_log2 n = Suc k" by (rule ceil_log2_between)
  moreover from a(1) have "n \<noteq> 0" by auto
  ultimately show ?thesis by (simp only: next_pow2_def if_False)
qed

lemma smallest_catalog_entry:
  "r \<le> 512 \<Longrightarrow> Min {n \<in> {512, 1024}. r \<le> n} = (512::nat)"
proof -
  assume "r \<le> 512"
  then have "{n \<in> {512, 1024}. r \<le> n} = {512, 1024::nat}" by auto
  then show ?thesis by simp
qed

lemma rotate_rows_accepts:
  assumes "square n R" and "0 < n" and "X \<noteq> []" and "\<forall>row \<in> set X. length row = n"
  shows "\<exists>Y. rotate_rows R X = Inr Y"
  using rotate_rows_eq [OF assms] by blast

lemma rotate_vec_accepts:
  assumes "square n R" and "length x = n"
  shows "\<exists>y. rotate_vec R x = Inr y"
  using matvec_square [OF assms] by (simp add: rotate_vec_def)

lemma rotate_vec_rejects:
  assumes "square n R" and "0 < n" and "length x \<noteq> n"
  shows "rotate_vec R x = Inl RuntimeError"
proof -
  from assms(1,2) have "R \<noteq> []" by (auto simp add: square_def)
  then have "hd R \<in> set R" by simp
  moreover from this assms(1) have "length (hd R) = n" by (simp add: square_def)
  ultimately have "\<exists>row \<in> set R. length row \<noteq> length x"
    using assms(3) by (intro bexI [of _ "hd R"]) simp_all
  then have "\<not> (\<forall>row \<in> set R. length row = length x)" by blast
  then show ?thesis by (simp add: rotate_vec_def matvec_def)
qed

text \<open>
  C7. Chunk round-trip. For a vector \<open>v\<close> of length \<open>L \<ge> 1024\<close> with
  \<open>256 < L mod 1024 \<le> 512\<close> the split cuts the first \<open>L - L mod 1024\<close> coordinates into
  the \<open>L div 1024\<close> full chunks of 1024 that fit and pads the others with zeros to 512
  entries, the smallest of the sizes 512 and 1024 that is at least the remainder. Only the
  final chunk is padded, and each chunk has the size that its rotation accepts.
  Concatenating the chunks in order and reading the first \<open>L\<close> coordinates back, as the
  reassembly of the decoder does layer by layer, gives exactly \<open>v\<close>.
\<close>

theorem chunk_round_trip:
  fixes layers :: "real list list"
  defines "v \<equiv> concat layers"
  defines "L \<equiv> length v"
  defines "r \<equiv> L mod 1024"
  defines "rows \<equiv> torch_split (take (L - r) v) 1024"
  assumes "1024 \<le> L" and "256 < r" and "r \<le> 512"
  shows "chunks1024 v = Inr rows
       \<and> length rows = L div 1024 \<and> (\<forall>row \<in> set rows. length row = 1024)
       \<and> concat rows = take (L - r) v
       \<and> chunk512 v = drop (L - r) v @ replicate (512 - r) 0
       \<and> length (chunk512 v) = 512
       \<and> Min {n \<in> {512, 1024}. r \<le> n} = 512
       \<and> concat rows @ chunk512 v = v @ replicate (512 - r) 0
       \<and> take L (concat rows @ chunk512 v) = v
       \<and> revert (map length layers) 0 (concat rows @ chunk512 v) = Inr layers
       \<and> (square 1024 (R1024 cat) \<longrightarrow> (\<exists>Y. rotate_rows (R1024 cat) rows = Inr Y))
       \<and> (square 512 (R512 cat) \<longrightarrow> (\<exists>y. rotate_vec (R512 cat) (chunk512 v) = Inr y))"
proof -
  have big: "1024 \<le> length v" using assms(5) unfolding L_def .
  have nz: "length v mod 1024 \<noteq> 0" using assms(6) unfolding r_def L_def by simp
  have np: "next_pow2 r = 512" using assms(6,7) by (rule next_pow2_512)
  have c1: "chunks1024 v = Inr rows"
    unfolding rows_def r_def L_def by (rule chunks1024_eq)
  have c2: "length rows = L div 1024"
    unfolding rows_def r_def L_def using big by (rule rows_full(1))
  have c3: "\<forall>row \<in> set rows. length row = 1024"
    unfolding rows_def r_def L_def using big by (rule rows_full(2))
  have c4: "concat rows = take (L - r) v"
    unfolding rows_def r_def L_def by (rule rows_concat)
  have "chunk512 v = drop (L - r) v @ replicate (next_pow2 r - r) 0"
    unfolding r_def L_def using nz by (rule chunk512_eq)
  then have c5: "chunk512 v = drop (L - r) v @ replicate (512 - r) 0" unfolding np .
  have rl: "length (remainder_slice v) = r"
    unfolding r_def L_def using nz by (rule length_remainder_slice)
  have c6: "length (chunk512 v) = 512"
    unfolding length_chunk512 rl np by (rule refl)
  have c7: "Min {n \<in> {512, 1024}. r \<le> n} = 512"
    using assms(7) by (rule smallest_catalog_entry)
  have "concat rows @ chunk512 v = v @ replicate (next_pow2 r - r) 0"
    unfolding c4 unfolding r_def L_def using nz by (rule merged_remainder)
  then have c8: "concat rows @ chunk512 v = v @ replicate (512 - r) 0" unfolding np .
  have c9: "take L (concat rows @ chunk512 v) = v"
    unfolding c4 unfolding r_def L_def by (rule merged_take)
  have "take (length (concat layers)) (drop 0 (concat rows @ chunk512 v)) = concat layers"
    using c9 unfolding L_def v_def by simp
  then have c10: "revert (map length layers) 0 (concat rows @ chunk512 v) = Inr layers"
    by (rule revert_layers)
  have q: "0 < L div 1024" using assms(5) by (simp add: div_greater_zero_iff)
  then have rne: "rows \<noteq> []" using c2 by auto
  have c11: "square 1024 (R1024 cat) \<longrightarrow> (\<exists>Y. rotate_rows (R1024 cat) rows = Inr Y)"
    using rne c3 by (auto intro: rotate_rows_accepts)
  have c12: "square 512 (R512 cat) \<longrightarrow> (\<exists>y. rotate_vec (R512 cat) (chunk512 v) = Inr y)"
    using c6 by (auto intro: rotate_vec_accepts)
  from c1 c2 c3 c4 c5 c6 c7 c8 c9 c10 c11 c12 show ?thesis by blast
qed

theorem chunk_round_trip_witness:
  "length (concat two_layers) = 1300
     \<and> chunks1024 (concat two_layers) = Inr (torch_split (take 1024 (concat two_layers)) 1024)
     \<and> length (torch_split (take 1024 (concat two_layers)) 1024) = 1
     \<and> length (chunk512 (concat two_layers)) = 512
     \<and> take 1300 (concat (torch_split (take 1024 (concat two_layers)) 1024) @ chunk512 (concat two_layers))
         = concat two_layers
     \<and> revert (map length two_layers) 0
          (concat (torch_split (take 1024 (concat two_layers)) 1024) @ chunk512 (concat two_layers))
         = Inr two_layers
     \<and> (\<exists>Y. rotate_rows (R1024 identity_catalog) (torch_split (take 1024 (concat two_layers)) 1024) = Inr Y)
     \<and> (\<exists>y. rotate_vec (R512 identity_catalog) (chunk512 (concat two_layers)) = Inr y)"
proof -
  have l: "length (concat two_layers) = 1300" by (simp add: two_layers_def)
  have n: "1300 mod 1024 = (276::nat)" "1300 - 276 = (1024::nat)" "1300 div 1024 = (1::nat)"
    by simp_all
  have h: "1024 \<le> length (concat two_layers)" "256 < length (concat two_layers) mod 1024"
    "length (concat two_layers) mod 1024 \<le> 512"
    unfolding l by simp_all
  have s1: "square 1024 (R1024 identity_catalog)"
    by (simp add: identity_catalog_def square_def identity_def)
  have s2: "square 512 (R512 identity_catalog)"
    by (simp add: identity_catalog_def square_def identity_def)
  note t = chunk_round_trip [OF h, where cat = identity_catalog, unfolded l n]
  from t have c1: "chunks1024 (concat two_layers)
      = Inr (torch_split (take 1024 (concat two_layers)) 1024)" by (rule conjunct1)
  from t have c2: "length (torch_split (take 1024 (concat two_layers)) 1024) = 1" by blast
  from t have c3: "length (chunk512 (concat two_layers)) = 512" by blast
  from t have c4: "take 1300 (concat (torch_split (take 1024 (concat two_layers)) 1024)
      @ chunk512 (concat two_layers)) = concat two_layers" by blast
  from t have c5: "revert (map length two_layers) 0
      (concat (torch_split (take 1024 (concat two_layers)) 1024) @ chunk512 (concat two_layers))
      = Inr two_layers" by blast
  from t s1 have c6: "\<exists>Y. rotate_rows (R1024 identity_catalog)
      (torch_split (take 1024 (concat two_layers)) 1024) = Inr Y" by blast
  from t s2 have c7: "\<exists>y. rotate_vec (R512 identity_catalog) (chunk512 (concat two_layers)) = Inr y"
    by blast
  from l c1 c2 c3 c4 c5 c6 c7 show ?thesis by blast
qed

lemma get_parameters_tail_rejected:
  assumes "1024 \<le> length (concat layers)" and "length (chunk512 (concat layers)) \<noteq> 512"
    and "square 1024 (R1024 cat)" and "square 512 (R512 cat)"
  shows "get_parameters linalg_inv cat K u1 u2 layers = Inl RuntimeError"
proof -
  let ?v = "concat layers"
  let ?rows = "torch_split (take (length ?v - length ?v mod 1024) ?v) 1024"
  have c: "chunks1024 ?v = Inr ?rows" by (rule chunks1024_eq)
  have "0 < length ?v div 1024" using assms(1) by (simp add: div_greater_zero_iff)
  then have ne: "?rows \<noteq> []" using rows_full(1) [OF assms(1)] by auto
  have "\<exists>Y. rotate_rows (R1024 cat) ?rows = Inr Y"
    using assms(3) _ ne rows_full(2) [OF assms(1)] by (rule rotate_rows_accepts) simp
  then obtain Y where y: "rotate_rows (R1024 cat) ?rows = Inr Y" by blast
  have "rotate_vec (R512 cat) (chunk512 ?v) = Inl RuntimeError"
    using assms(4) _ assms(2) by (rule rotate_vec_rejects) simp
  then show ?thesis by (simp add: get_parameters_def Let_def c y)
qed

theorem chunk_padding_counterexample:
  "length short_tail_vector mod 1024 = 100 \<and> length (chunk512 short_tail_vector) = 128
   \<and> get_parameters sample_inv identity_catalog K_default half_draws half_draws [short_tail_vector]
       = Inl RuntimeError"
proof -
  have l: "length short_tail_vector mod 1024 = 100" by (simp add: short_tail_vector_def)
  then have "length (remainder_slice short_tail_vector) = 100"
    by (simp add: length_remainder_slice)
  moreover have "next_pow2 100 = 2 ^ Suc 6" by (rule next_pow2_between) simp_all
  ultimately have c: "length (chunk512 short_tail_vector) = 128" by (simp add: length_chunk512)
  have s1: "square 1024 (R1024 identity_catalog)"
    by (simp add: identity_catalog_def square_def identity_def)
  have s2: "square 512 (R512 identity_catalog)"
    by (simp add: identity_catalog_def square_def identity_def)
  have "get_parameters sample_inv identity_catalog K_default half_draws half_draws [short_tail_vector]
       = Inl RuntimeError"
    by (rule get_parameters_tail_rejected [OF _ _ s1 s2])
       (simp_all add: c, simp add: short_tail_vector_def)
  with l c show ?thesis by simp
qed

lemma LeNet5_numel:
  "sum_list (map numel LeNet5_shapes) = 44426"
  by (simp add: LeNet5_shapes_def numel_def)

lemma rotate_rows_empty:
  assumes "square 1024 R"
  shows "rotate_rows R [[]] = Inl RuntimeError"
proof -
  from assms have "R \<noteq> []" by (auto simp add: square_def)
  then have "hd R \<in> set R" by simp
  moreover from this assms have "length (hd R) = 1024" by (simp add: square_def)
  ultimately have "\<exists>row \<in> set R. length row \<noteq> 0"
    by (intro bexI [of _ "hd R"]) simp_all
  then have "\<not> (\<forall>row \<in> set R. length row = 0)" by blast
  then have "matmul R [] = Inl RuntimeError" by (simp add: matmul_def)
  moreover have "tensor_T [[]] = ([] :: real list list)" by (simp add: tensor_T_def)
  ultimately show ?thesis by (simp add: rotate_rows_def)
qed

lemma get_parameters_short:
  assumes "length (concat layers) < 1024" and "square 1024 (R1024 cat)"
  shows "get_parameters linalg_inv cat K u1 u2 layers = Inl RuntimeError"
proof -
  have "chunks1024 (concat layers) = Inr [[]]"
    unfolding chunks1024_eq rows_empty [OF assms(1)] by (rule refl)
  moreover have "rotate_rows (R1024 cat) [[]] = Inl RuntimeError"
    using assms(2) by (rule rotate_rows_empty)
  ultimately show ?thesis by (simp add: get_parameters_def Let_def)
qed

lemma chunk512_tail:
  assumes "length v mod 1024 \<noteq> 0"
  shows "take (length v mod 1024) (chunk512 v) = drop (length v - length v mod 1024) v"
    and "drop (length v mod 1024) (chunk512 v)
         = replicate (next_pow2 (length v mod 1024) - length v mod 1024) 0"
proof -
  have "length (drop (length v - length v mod 1024) v) = length v mod 1024"
    by (simp add: mod_less_eq_dividend)
  then show "take (length v mod 1024) (chunk512 v) = drop (length v - length v mod 1024) v"
    and "drop (length v mod 1024) (chunk512 v)
         = replicate (next_pow2 (length v mod 1024) - length v mod 1024) 0"
    unfolding chunk512_eq [OF assms] by simp_all
qed

lemma whole_chunks:
  fixes flat0 :: "real list"
  assumes "length flat0 mod 1024 = 0"
  shows "remainder_slice flat0 = flat0"
    and "chunks1024 flat0 = Inr (torch_split flat0 1024)"
    and "concat (torch_split flat0 1024) = flat0"
proof -
  show "remainder_slice flat0 = flat0" using assms by (simp add: remainder_slice_eq)
  have t: "take (length flat0 - length flat0 mod 1024) flat0 = flat0" using assms by simp
  show "chunks1024 flat0 = Inr (torch_split flat0 1024)"
    using chunks1024_eq [of flat0] unfolding t .
  show "concat (torch_split flat0 1024) = flat0"
    using rows_concat [of flat0] unfolding t .
qed

text \<open>
  C10. The chunking precondition. For parameters of length \<open>L\<close> with
  \<open>256 < L mod 1024 \<le> 512\<close>, the chunking puts every coordinate in exactly one chunk: the
  first \<open>L - L mod 1024\<close> in the full chunks of 1024 (\<open>L div 1024\<close> of them when
  \<open>L \<ge> 1024\<close>, one empty chunk when \<open>L < 1024\<close>) and the others at the head of a final chunk
  of 512, whose \<open>512 - L mod 1024\<close> last entries are the zeros of the padding; and the
  reassembly of the decoder returns, layer by layer, the first \<open>L\<close> decoded coordinates
  and nothing of the padding. For \<open>L < 1024\<close> \<^verbatim>\<open>get_parameters\<close> raises at the rotation of
  the empty chunk by a matrix \<^verbatim>\<open>R1024\<close> of size 1024. The parameters of LeNet5 are 44426
  values, with remainder 394. For a vector whose length is a multiple of 1024 the remainder
  slice is the whole vector, which is also the content of the full chunks.
\<close>

theorem chunking_precondition:
  fixes layers :: "real list list" and flat0 :: "real list"
  defines "flat_params \<equiv> concat layers"
  defines "L \<equiv> length flat_params"
  defines "r \<equiv> L mod 1024"
  defines "params1024 \<equiv> torch_split (take (L - r) flat_params) 1024"
  defines "params512 \<equiv> chunk512 flat_params"
  shows "(256 < r \<and> r \<le> 512 \<longrightarrow>
            chunks1024 flat_params = Inr params1024
          \<and> (1024 \<le> L \<longrightarrow> length params1024 = L div 1024 \<and> (\<forall>row \<in> set params1024. length row = 1024))
          \<and> (L < 1024 \<longrightarrow> params1024 = [[]])
          \<and> length params512 = 512
          \<and> pad_count (length (remainder_slice flat_params)) = 512 - r
          \<and> concat params1024 @ take r params512 = flat_params
          \<and> drop r params512 = replicate (512 - r) 0
          \<and> (\<forall>dec. length dec = length (concat params1024) + length params512 \<longrightarrow>
               (\<exists>slices. revert (map length layers) 0 dec = Inr slices
                  \<and> map length slices = map length layers \<and> concat slices = take L dec)))
       \<and> (L < 1024 \<and> square 1024 (R1024 cat) \<longrightarrow>
            get_parameters linalg_inv cat K u1 u2 layers = Inl RuntimeError)
       \<and> sum_list (map numel LeNet5_shapes) = 44426
       \<and> sum_list (map numel LeNet5_shapes) mod 1024 = 394
       \<and> (length flat0 mod 1024 = 0 \<longrightarrow>
            remainder_slice flat0 = flat0
          \<and> chunks1024 flat0 = Inr (torch_split flat0 1024)
          \<and> concat (torch_split flat0 1024) = flat0)"
proof -
  have main: "chunks1024 flat_params = Inr params1024
          \<and> (1024 \<le> L \<longrightarrow> length params1024 = L div 1024 \<and> (\<forall>row \<in> set params1024. length row = 1024))
          \<and> (L < 1024 \<longrightarrow> params1024 = [[]])
          \<and> length params512 = 512
          \<and> pad_count (length (remainder_slice flat_params)) = 512 - r
          \<and> concat params1024 @ take r params512 = flat_params
          \<and> drop r params512 = replicate (512 - r) 0
          \<and> (\<forall>dec. length dec = length (concat params1024) + length params512 \<longrightarrow>
               (\<exists>slices. revert (map length layers) 0 dec = Inr slices
                  \<and> map length slices = map length layers \<and> concat slices = take L dec))"
    if range: "256 < r \<and> r \<le> 512"
  proof -
    from range have nz: "r \<noteq> 0" by simp
    then have nz': "length flat_params mod 1024 \<noteq> 0" unfolding r_def L_def .
    from range have np: "next_pow2 r = 512" by (simp add: next_pow2_512)
    have rl: "length (remainder_slice flat_params) = r"
      unfolding r_def L_def using nz' by (rule length_remainder_slice)
    have m1: "chunks1024 flat_params = Inr params1024"
      unfolding params1024_def r_def L_def by (rule chunks1024_eq)
    have m2: "1024 \<le> L \<longrightarrow> length params1024 = L div 1024 \<and> (\<forall>row \<in> set params1024. length row = 1024)"
      unfolding params1024_def r_def L_def using rows_full [of flat_params] by blast
    have m3: "L < 1024 \<longrightarrow> params1024 = [[]]"
      unfolding params1024_def r_def L_def using rows_empty [of flat_params] by blast
    have m4: "length params512 = 512"
      unfolding params512_def length_chunk512 rl np by (rule refl)
    have m5: "pad_count (length (remainder_slice flat_params)) = 512 - r"
      unfolding rl pad_count_def np by (rule refl)
    have cc: "concat params1024 = take (L - r) flat_params"
      unfolding params1024_def r_def L_def by (rule rows_concat)
    have tk: "take r params512 = drop (L - r) flat_params"
      unfolding params512_def r_def L_def using nz' by (rule chunk512_tail(1))
    have m6: "concat params1024 @ take r params512 = flat_params"
      unfolding cc tk by simp
    have "drop r params512 = replicate (next_pow2 r - r) 0"
      unfolding params512_def r_def L_def using nz' by (rule chunk512_tail(2))
    then have m7: "drop r params512 = replicate (512 - r) 0" unfolding np .
    have lc: "length (concat params1024) = L - r"
      unfolding cc L_def by simp
    have rL: "r \<le> L" unfolding r_def by (rule mod_less_eq_dividend)
    have sl: "sum_list (map length layers) = L"
      unfolding L_def flat_params_def by (simp add: length_concat)
    have m8: "\<exists>slices. revert (map length layers) 0 dec = Inr slices
                  \<and> map length slices = map length layers \<and> concat slices = take L dec"
      if d: "length dec = length (concat params1024) + length params512" for dec
    proof -
      from range have "r \<le> 512" by (rule conjunct2)
      with rL have "L \<le> (L - r) + 512" by linarith
      then have "0 + sum_list (map length layers) \<le> length dec"
        unfolding sl d lc m4 by simp
      from revert_slices [OF this] show ?thesis unfolding sl by simp
    qed
    from m1 m2 m3 m4 m5 m6 m7 m8 show ?thesis by blast
  qed
  have short: "L < 1024 \<and> square 1024 (R1024 cat) \<longrightarrow>
            get_parameters linalg_inv cat K u1 u2 layers = Inl RuntimeError"
    unfolding L_def flat_params_def using get_parameters_short by blast
  have n1: "sum_list (map numel LeNet5_shapes) = 44426" by (rule LeNet5_numel)
  have n2: "sum_list (map numel LeNet5_shapes) mod 1024 = 394" unfolding n1 by simp
  have whole: "length flat0 mod 1024 = 0 \<longrightarrow>
            remainder_slice flat0 = flat0
          \<and> chunks1024 flat0 = Inr (torch_split flat0 1024)
          \<and> concat (torch_split flat0 1024) = flat0"
    by (simp add: whole_chunks)
  from main short n1 n2 whole show ?thesis by blast
qed

lemma length_LeNet5_layers: "length (concat LeNet5_layers) = 44426"
  by (simp add: LeNet5_layers_def LeNet5_shapes_def numel_def)

theorem chunking_precondition_witness:
  "length (concat LeNet5_layers) = 44426
     \<and> chunks1024 (concat LeNet5_layers) = Inr (torch_split (take 44032 (concat LeNet5_layers)) 1024)
     \<and> length (torch_split (take 44032 (concat LeNet5_layers)) 1024) = 43
     \<and> length (chunk512 (concat LeNet5_layers)) = 512
     \<and> pad_count (length (remainder_slice (concat LeNet5_layers))) = 118
     \<and> drop 394 (chunk512 (concat LeNet5_layers)) = replicate 118 0
     \<and> length whole_chunks_vector = 2048
     \<and> remainder_slice whole_chunks_vector = whole_chunks_vector
     \<and> length (concat short_layers) = 300
     \<and> get_parameters sample_inv identity_catalog K_default half_draws half_draws short_layers
         = Inl RuntimeError"
proof -
  have l: "length (concat LeNet5_layers) = 44426" by (rule length_LeNet5_layers)
  have w: "length whole_chunks_vector = 2048" by (simp add: whole_chunks_vector_def)
  have n: "44426 mod 1024 = (394::nat)" "44426 - 394 = (44032::nat)" "44426 div 1024 = (43::nat)"
      "512 - 394 = (118::nat)" "2048 mod 1024 = (0::nat)"
    by simp_all
  note t = chunking_precondition [where layers = LeNet5_layers and ?flat0.0 = whole_chunks_vector,
      unfolded l w n]
  from t have m: "(256::nat) < 394 \<and> (394::nat) \<le> 512 \<longrightarrow>
       chunks1024 (concat LeNet5_layers) = Inr (torch_split (take 44032 (concat LeNet5_layers)) 1024)
     \<and> ((1024::nat) \<le> 44426 \<longrightarrow>
           length (torch_split (take 44032 (concat LeNet5_layers)) 1024) = 43)
     \<and> length (chunk512 (concat LeNet5_layers)) = 512
     \<and> pad_count (length (remainder_slice (concat LeNet5_layers))) = 118
     \<and> drop 394 (chunk512 (concat LeNet5_layers)) = replicate 118 0"
    by blast
  have c: "chunks1024 (concat LeNet5_layers) = Inr (torch_split (take 44032 (concat LeNet5_layers)) 1024)
     \<and> length (torch_split (take 44032 (concat LeNet5_layers)) 1024) = 43
     \<and> length (chunk512 (concat LeNet5_layers)) = 512
     \<and> pad_count (length (remainder_slice (concat LeNet5_layers))) = 118
     \<and> drop 394 (chunk512 (concat LeNet5_layers)) = replicate 118 0"
    using m by simp
  from t have "(0::nat) = 0 \<longrightarrow> remainder_slice whole_chunks_vector = whole_chunks_vector"
    by blast
  then have c': "remainder_slice whole_chunks_vector = whole_chunks_vector" by simp
  have s: "length (concat short_layers) = 300" by (simp add: short_layers_def)
  have sq: "square 1024 (R1024 identity_catalog)"
    by (simp add: identity_catalog_def square_def identity_def)
  note t' = chunking_precondition [where layers = short_layers and cat = identity_catalog
      and linalg_inv = sample_inv and K = K_default and ?u1.0 = half_draws and ?u2.0 = half_draws,
      unfolded s]
  from t' have "(300::nat) < 1024 \<and> square 1024 (R1024 identity_catalog) \<longrightarrow>
      get_parameters sample_inv identity_catalog K_default half_draws half_draws short_layers
        = Inl RuntimeError"
    by blast
  with sq have c'': "get_parameters sample_inv identity_catalog K_default half_draws half_draws
      short_layers = Inl RuntimeError" by simp
  from l w c c' s c'' show ?thesis by blast
qed

theorem LeNet5_parameter_count_counterexample:
  "length (concat LeNet5_layers) = 44426 \<and> length (concat LeNet5_layers) mod 1024 = 394"
  by (simp add: length_LeNet5_layers)

subsection \<open>Rounding to float32\<close>

lemma rne_of_int [simp]: "rne (of_int n) = n"
  by (simp add: rne_def)

lemma rne_cases: "rne x = \<lfloor>x\<rfloor> \<or> rne x = \<lfloor>x\<rfloor> + 1"
  by (simp add: rne_def Let_def)

lemma rne_mono:
  assumes "x \<le> y"
  shows "rne x \<le> rne y"
proof (cases "\<lfloor>x\<rfloor> = \<lfloor>y\<rfloor>")
  case True
  then have "x - of_int \<lfloor>x\<rfloor> \<le> y - of_int \<lfloor>y\<rfloor>" using assms by simp
  then show ?thesis using True by (auto simp add: rne_def Let_def)
next
  case False
  then have "\<lfloor>x\<rfloor> < \<lfloor>y\<rfloor>" using floor_mono [OF assms] by simp
  then have "\<lfloor>x\<rfloor> + 1 \<le> \<lfloor>y\<rfloor>" by simp
  moreover have "rne x \<le> \<lfloor>x\<rfloor> + 1" using rne_cases [of x] by auto
  moreover have "\<lfloor>y\<rfloor> \<le> rne y" using rne_cases [of y] by auto
  ultimately show ?thesis by linarith
qed

lemma rne_ge_int: "of_int n \<le> x \<Longrightarrow> n \<le> rne x"
  using rne_mono [of "of_int n" x] by simp

lemma rne_le_int: "x \<le> of_int n \<Longrightarrow> rne x \<le> n"
  using rne_mono [of x "of_int n"] by simp

lemma rne_minus: "rne (- x) = - rne x"
proof (cases "x = of_int \<lfloor>x\<rfloor>")
  case True
  then obtain n where "x = of_int n" ..
  then have "- x = of_int (- n)" by simp
  then show ?thesis using \<open>x = of_int n\<close> by (simp only: rne_of_int)
next
  case False
  have nint: "x \<notin> \<int>"
  proof
    assume "x \<in> \<int>"
    then obtain n where "x = of_int n" by (rule Ints_cases)
    then have "x = of_int \<lfloor>x\<rfloor>" by simp
    with False show False by simp
  qed
  have fl: "\<lfloor>- x\<rfloor> = - \<lfloor>x\<rfloor> - 1"
    using nint False by (simp add: floor_minus ceiling_altdef)
  have lo: "of_int \<lfloor>x\<rfloor> < x" using False of_int_floor_le [of x] by linarith
  show ?thesis
    unfolding rne_def Let_def fl using lo by (auto simp add: algebra_simps)
qed

lemma floor_log2_bounds:
  assumes "0 < x"
  shows "2 powi \<lfloor>log 2 x\<rfloor> \<le> x" and "x < 2 powi (\<lfloor>log 2 x\<rfloor> + 1)"
proof -
  have p1: "2 powr real_of_int \<lfloor>log 2 x\<rfloor> = 2 powi \<lfloor>log 2 x\<rfloor>"
    by (rule powr_real_of_int') simp_all
  have p2: "2 powr real_of_int (\<lfloor>log 2 x\<rfloor> + 1) = 2 powi (\<lfloor>log 2 x\<rfloor> + 1)"
    by (rule powr_real_of_int') simp_all
  have "(\<lfloor>log 2 x\<rfloor> = \<lfloor>log 2 x\<rfloor>) =
        (2 powr real_of_int \<lfloor>log 2 x\<rfloor> \<le> x \<and> x < 2 powr real_of_int (\<lfloor>log 2 x\<rfloor> + 1))"
    using assms by (intro floor_log_eq_powr_iff) simp_all
  then have "2 powi \<lfloor>log 2 x\<rfloor> \<le> x \<and> x < 2 powi (\<lfloor>log 2 x\<rfloor> + 1)"
    unfolding p1 p2 by blast
  then show "2 powi \<lfloor>log 2 x\<rfloor> \<le> x" and "x < 2 powi (\<lfloor>log 2 x\<rfloor> + 1)"
    by blast+
qed

lemma floor_log2_eqI:
  assumes "2 powi e \<le> x" and "x < 2 powi (e + 1)"
  shows "\<lfloor>log 2 x\<rfloor> = e"
proof -
  have "0 < (2::real) powi e" by simp
  with assms(1) have pos: "0 < x" by linarith
  have p1: "2 powr real_of_int e = 2 powi e"
    by (rule powr_real_of_int') simp_all
  have p2: "2 powr real_of_int (e + 1) = 2 powi (e + 1)"
    by (rule powr_real_of_int') simp_all
  have "(\<lfloor>log 2 x\<rfloor> = e) = (2 powr real_of_int e \<le> x \<and> x < 2 powr real_of_int (e + 1))"
    using pos by (intro floor_log_eq_powr_iff) simp_all
  then show ?thesis unfolding p1 p2 using assms by blast
qed

lemma float32_eqI:
  assumes "2 powi e \<le> \<bar>x\<bar>" and "\<bar>x\<bar> < 2 powi (e + 1)"
    and "rne (x / 2 powi (e - 23)) = n"
  shows "float32 x = of_int n * 2 powi (e - 23)"
proof -
  have "0 < (2::real) powi e" by simp
  with assms(1) have "0 < \<bar>x\<bar>" by linarith
  then have "x \<noteq> 0" by simp
  moreover have "\<lfloor>log 2 \<bar>x\<bar>\<rfloor> = e" using assms(1,2) by (rule floor_log2_eqI)
  ultimately show ?thesis using assms(3) by (simp add: float32_def ulp_def)
qed

lemma float32_0 [simp]: "float32 0 = 0"
  by (simp add: float32_def)

lemma float32_minus: "float32 (- x) = - float32 x"
  by (simp add: float32_def ulp_def rne_minus)

lemma float32_pos_bounds:
  assumes "0 < x"
  shows "2 powi \<lfloor>log 2 x\<rfloor> \<le> float32 x" and "float32 x \<le> 2 powi (\<lfloor>log 2 x\<rfloor> + 1)"
proof -
  let ?e = "\<lfloor>log 2 x\<rfloor>"
  let ?u = "(2::real) powi (?e - 23)"
  have u: "0 < ?u" by simp
  have fx: "float32 x = of_int (rne (x / ?u)) * ?u"
    using assms by (simp add: float32_def ulp_def)
  have e1: "(2::real) powi ?e = 2 ^ 23 * ?u"
    by (simp add: power_int_diff)
  have e2: "(2::real) powi (?e + 1) = 2 ^ 24 * ?u"
    by (simp add: power_int_diff power_int_add)
  have "2 ^ 23 * ?u \<le> x" using floor_log2_bounds(1) [OF assms] e1 by simp
  then have "of_int (2 ^ 23) \<le> x / ?u" using u by (simp add: le_divide_eq)
  then have "2 ^ 23 \<le> rne (x / ?u)" by (rule rne_ge_int)
  then have "(2::real) ^ 23 \<le> of_int (rne (x / ?u))"
    by (metis of_int_le_iff of_int_numeral of_int_power)
  then have "2 ^ 23 * ?u \<le> of_int (rne (x / ?u)) * ?u" using u by simp
  then show "2 powi ?e \<le> float32 x" using fx e1 by simp
  have "x \<le> 2 ^ 24 * ?u" using floor_log2_bounds(2) [OF assms] e2 by simp
  then have "x / ?u \<le> of_int (2 ^ 24)" using u by (simp add: divide_le_eq)
  then have "rne (x / ?u) \<le> 2 ^ 24" by (rule rne_le_int)
  then have "of_int (rne (x / ?u)) \<le> (2::real) ^ 24"
    by (metis of_int_le_iff of_int_numeral of_int_power)
  then have "of_int (rne (x / ?u)) * ?u \<le> 2 ^ 24 * ?u" using u by simp
  then show "float32 x \<le> 2 powi (?e + 1)" using fx e2 by simp
qed

lemma float32_pos: "0 < x \<Longrightarrow> 0 < float32 x"
proof -
  assume "0 < x"
  then have "2 powi \<lfloor>log 2 x\<rfloor> \<le> float32 x" by (rule float32_pos_bounds)
  moreover have "0 < (2::real) powi \<lfloor>log 2 x\<rfloor>" by simp
  ultimately show ?thesis by linarith
qed

lemma float32_mono_pos:
  assumes "0 < x" and "x \<le> y"
  shows "float32 x \<le> float32 y"
proof -
  have y: "0 < y" using assms by simp
  have le: "\<lfloor>log 2 x\<rfloor> \<le> \<lfloor>log 2 y\<rfloor>"
    using assms by (intro floor_mono) simp
  show ?thesis
  proof (cases "\<lfloor>log 2 x\<rfloor> = \<lfloor>log 2 y\<rfloor>")
    case True
    let ?u = "(2::real) powi (\<lfloor>log 2 y\<rfloor> - 23)"
    have u: "0 < ?u" by simp
    have "x / ?u \<le> y / ?u" using assms(2) u by (simp add: divide_right_mono)
    then have "rne (x / ?u) \<le> rne (y / ?u)" by (rule rne_mono)
    then have "of_int (rne (x / ?u)) * ?u \<le> of_int (rne (y / ?u)) * ?u" using u by simp
    then show ?thesis using assms(1) y True by (simp add: float32_def ulp_def)
  next
    case False
    then have "\<lfloor>log 2 x\<rfloor> + 1 \<le> \<lfloor>log 2 y\<rfloor>" using le by simp
    then have "(2::real) powi (\<lfloor>log 2 x\<rfloor> + 1) \<le> 2 powi \<lfloor>log 2 y\<rfloor>"
      by (intro power_int_increasing) simp_all
    with float32_pos_bounds(2) [OF assms(1)] float32_pos_bounds(1) [OF y]
    show ?thesis by linarith
  qed
qed

lemma float32_mono: "x \<le> y \<Longrightarrow> float32 x \<le> float32 y"
proof -
  assume le: "x \<le> y"
  consider "0 < x" | "x \<le> 0" "0 \<le> y" | "y < 0" by linarith
  then show ?thesis
  proof cases
    case 1
    then show ?thesis using le by (rule float32_mono_pos)
  next
    case 2
    have "float32 x \<le> 0"
    proof (cases "x = 0")
      case True then show ?thesis by simp
    next
      case False
      with 2 have "0 < - x" by simp
      then have "0 < float32 (- x)" by (rule float32_pos)
      then show ?thesis by (simp add: float32_minus)
    qed
    moreover have "0 \<le> float32 y"
    proof (cases "y = 0")
      case True then show ?thesis by simp
    next
      case False
      with 2 have "0 < y" by simp
      then have "0 < float32 y" by (rule float32_pos)
      then show ?thesis by simp
    qed
    ultimately show ?thesis by linarith
  next
    case 3
    then have "0 < - y" "- y \<le> - x" using le by simp_all
    then have "float32 (- y) \<le> float32 (- x)" by (rule float32_mono_pos)
    then show ?thesis by (simp add: float32_minus)
  qed
qed


subsection \<open>The rounded levels\<close>

lemma rounding_float32: "rounding float32"
  by (simp add: rounding_def float32_mono)

lemma rounding_exact: "rounding (\<lambda>x. x)"
  by (simp add: rounding_def)

lemma rounding_zero: "rounding rnd \<Longrightarrow> rnd 0 = 0"
  by (simp add: rounding_def)


lemma encoder_levels_rounded_nonempty:
  "params \<noteq> [] \<Longrightarrow>
     encoder_levels_rounded rnd K params
       = Inr (levels_rounded rnd K (Min (set params)) (Max (set params)))"
  by (simp add: encoder_levels_rounded_def torch_max_def torch_min_def)

lemma length_levels_rounded [simp]: "length (levels_rounded rnd K mn mx) = K"
  by (simp add: levels_rounded_def)

lemma levels_rounded_nth:
  "i < K \<Longrightarrow> levels_rounded rnd K mn mx ! i
     = rnd (mn + rnd (rnd (rnd (mx - mn) * real i) / (real K - 1)))"
  by (simp add: levels_rounded_def)

lemma levels_rounded_exact: "levels_rounded (\<lambda>x. x) K mn mx = levels K mn mx"
  by (simp add: levels_rounded_def levels_def)

lemma encoder_levels_rounded_exact: "encoder_levels_rounded (\<lambda>x. x) K params = encoder_levels K params"
  by (simp add: encoder_levels_rounded_def encoder_levels_def levels_rounded_exact)

lemma encoder_rounded_exact: "encoder_rounded (\<lambda>x. x) K u params = encoder K u params"
  by (simp add: encoder_rounded_def encoder_def encoder_levels_rounded_exact)

lemma levels_rounded_first:
  assumes "rounding rnd" and "rnd mn = mn" and "0 < K"
  shows "levels_rounded rnd K mn mx ! 0 = mn"
  using assms by (simp add: levels_rounded_nth rounding_zero)




lemma encoder_rounded_on_levels:
  assumes "K \<noteq> 1" and "encoder_levels_rounded rnd K params = Inr b" and "length b = K" and "b \<noteq> []"
    and "\<And>v. v \<in> set params \<Longrightarrow> b ! 0 \<le> v"
  shows "encoder_rounded rnd K u params = Inr (encode_bits u b params, map (bracket_of b) params)"
proof -
  have brs: "encoder_brs b (encoder_pts K (encoder_ids b params)) = Inr (map (bracket_of b) params)"
    using encoder_brs_bracket [OF assms(4,5)] assms(3) by simp
  have range: "\<And>p. p \<in> set (map (\<lambda>v. prob v (bracket_of b v)) params) \<Longrightarrow> 0 \<le> p \<and> p \<le> 1"
    using prob_bracket_range [OF assms(4)] assms(5) by fastforce
  have encs: "encoder_encs u (encoder_probs params (map (bracket_of b) params)) = Inr (encode_bits u b params)"
  proof -
    let ?ps = "map (\<lambda>v. prob v (bracket_of b v)) params"
    have "encoder_encs u ?ps = Inr (map (\<lambda>(i, p). if u i < p then 1 else 0) (zip [0..<length ?ps] ?ps))"
      using range by (rule encoder_encs_Inr)
    also have "map (\<lambda>(i, p). if u i < p then 1 else 0) (zip [0..<length ?ps] ?ps) = encode_bits u b params"
      unfolding zip_upt_map encode_bits_def by simp
    finally show ?thesis by (simp only: encoder_probs_map)
  qed
  show ?thesis
    using assms(1) by (simp add: encoder_rounded_def assms(2) brs encs)
qed

lemma float_tensor_Min:
  "float_tensor rnd params \<Longrightarrow> params \<noteq> [] \<Longrightarrow> rnd (Min (set params)) = Min (set params)"
  unfolding float_tensor_def using Min_in [of "set params"] by simp

lemma float_tensor_Max:
  "float_tensor rnd params \<Longrightarrow> params \<noteq> [] \<Longrightarrow> rnd (Max (set params)) = Max (set params)"
  unfolding float_tensor_def using Max_in [of "set params"] by simp

lemma encoder_rounded_returns:
  assumes "rounding rnd" and "2 \<le> K" and "params \<noteq> []" and "float_tensor rnd params"
  shows "encoder_rounded rnd K u params =
           Inr (encode_bits u (levels_rounded rnd K (Min (set params)) (Max (set params))) params,
                map (bracket_of (levels_rounded rnd K (Min (set params)) (Max (set params)))) params)"
proof (rule encoder_rounded_on_levels)
  let ?b = "levels_rounded rnd K (Min (set params)) (Max (set params))"
  show "K \<noteq> 1" using assms(2) by simp
  show "encoder_levels_rounded rnd K params = Inr ?b"
    using assms(3) by (rule encoder_levels_rounded_nonempty)
  show "length ?b = K" by simp
  show "?b \<noteq> []" using assms(2) by (simp add: levels_rounded_def)
  have "0 < K" using assms(2) by simp
  with assms(1) float_tensor_Min [OF assms(4,3)] have "?b ! 0 = Min (set params)"
    by (rule levels_rounded_first)
  then show "\<And>v. v \<in> set params \<Longrightarrow> ?b ! 0 \<le> v" by simp
qed





subsection \<open>Concrete roundings\<close>

lemma float32_eval:
  assumes "2 powi e \<le> \<bar>x\<bar>" and "\<bar>x\<bar> < 2 powi (e + 1)"
    and "rne (x / 2 powi (e - 23)) = n" and "y = of_int n * 2 powi (e - 23)"
  shows "float32 x = y"
  unfolding assms(4) using assms(1,2,3) by (rule float32_eqI)

lemma float32_1: "float32 1 = 1"
  by (rule float32_eval [where e = 0 and n = 8388608]) (simp_all add: rne_def Let_def power_int_minus_divide)

lemma float32_2: "float32 2 = 2"
  by (rule float32_eval [where e = 1 and n = 8388608]) (simp_all add: rne_def Let_def power_int_minus_divide)

lemma float32_3: "float32 3 = 3"
  by (rule float32_eval [where e = 1 and n = 12582912]) (simp_all add: rne_def Let_def power_int_minus_divide)

lemma float32_6: "float32 6 = 6"
  by (rule float32_eval [where e = 2 and n = 12582912]) (simp_all add: rne_def Let_def power_int_minus_divide)

lemma float32_9: "float32 9 = 9"
  by (rule float32_eval [where e = 3 and n = 9437184]) (simp_all add: rne_def Let_def power_int_minus_divide)

lemma float32_3_2: "float32 (3 / 2) = 3 / 2"
  by (rule float32_eval [where e = 0 and n = 12582912]) (simp_all add: rne_def Let_def power_int_minus_divide)

lemma float32_5: "float32 5 = 5"
  by (rule float32_eval [where e = 2 and n = 10485760]) (simp_all add: rne_def Let_def power_int_minus_divide)


















lemma levels_rounded_scenario: "levels_rounded float32 4 0 3 = [0, 1, 2, 3]"
  by (simp add: levels_rounded_def upt_conv_Cons float32_1 float32_2 float32_3 float32_6 float32_9)

lemma levels_rounded_constant: "levels_rounded float32 4 5 5 = [5, 5, 5, 5]"
  by (simp add: levels_rounded_def upt_conv_Cons float32_5)






lemma float_tensor_interpolated: "float_tensor float32 interpolated_chunk"
  by (simp add: float_tensor_def interpolated_chunk_def float32_3 float32_3_2)


subsection \<open>The levels of the tensor passed\<close>










subsection \<open>The maximum and the brackets\<close>


lemma levels_rounded_nonempty: "2 \<le> K \<Longrightarrow> levels_rounded rnd K mn mx \<noteq> []"
  by (simp add: levels_rounded_def)






lemma constant_levels:
  "encoder_levels_rounded float32 4 constant_chunk = Inr [5, 5, 5, 5]"
  using encoder_levels_rounded_nonempty [of constant_chunk float32 4]
  by (simp add: constant_chunk_def levels_rounded_constant)







lemma unit_half_draws: "unit_draws half_draws"
  by (simp add: unit_draws_def half_draws_def)





subsection \<open>Probabilities and draws\<close>

lemma bernoulli_bit:
  "0 \<le> p \<Longrightarrow> p \<le> 1 \<Longrightarrow> projr (bernoulli d p) = (if d < p then 1 else 0)"
  by (simp add: bernoulli_def)

lemma draws_below:
  assumes "0 \<le> p" and "p \<le> 1" and "0 < N"
  shows "{k. k < N \<and> real k / real N < p} = {..<nat \<lceil>p * real N\<rceil>}"
proof -
  have n: "0 < real N" using assms(3) by simp
  have c: "\<lceil>p * real N\<rceil> \<le> int N"
  proof -
    have "p * real N \<le> real N" using assms(2) n by (simp add: mult_le_cancel_right1)
    then have "p * real N \<le> of_int (int N)" by simp
    then show ?thesis by (simp only: ceiling_le_iff)
  qed
  have "(k < N \<and> real k / real N < p) = (k < nat \<lceil>p * real N\<rceil>)" for k
  proof -
    have "(real k / real N < p) = (real k < p * real N)" using n by (simp add: divide_less_eq)
    also have "\<dots> = (of_int (int k) < p * real N)" by simp
    also have "\<dots> = (int k < \<lceil>p * real N\<rceil>)" by (simp only: less_ceiling_iff)
    finally have e: "(real k / real N < p) = (int k < \<lceil>p * real N\<rceil>)" .
    show ?thesis unfolding e using c by linarith
  qed
  then show ?thesis by auto
qed

lemma draw_mean_bit:
  assumes "0 \<le> p" and "p \<le> 1" and "0 < N"
  shows "draw_mean N (\<lambda>d. if d < p then 1 else 0) = real (nat \<lceil>p * real N\<rceil>) / real N"
proof -
  have "(\<Sum>k<N. if real k / real N < p then 1 else 0 :: real)
        = real (card {k \<in> {..<N}. real k / real N < p})"
    by (simp add: sum.If_cases Int_def)
  also have "{k \<in> {..<N}. real k / real N < p} = {k. k < N \<and> real k / real N < p}" by auto
  also have "\<dots> = {..<nat \<lceil>p * real N\<rceil>}" using assms by (rule draws_below)
  finally show ?thesis by (simp add: draw_mean_def)
qed

lemma draw_mean_bit_bounds:
  assumes "0 \<le> p" and "p \<le> 1" and "0 < N"
  shows "p \<le> draw_mean N (\<lambda>d. if d < p then 1 else 0)"
    and "draw_mean N (\<lambda>d. if d < p then 1 else 0) \<le> p + 1 / real N"
proof -
  have n: "0 < real N" using assms(3) by simp
  have "0 \<le> p * real N" using assms(1) by simp
  then have "- 1 < p * real N" by linarith
  then have nn: "0 \<le> \<lceil>p * real N\<rceil>" by (simp only: zero_le_ceiling)
  then have r: "real (nat \<lceil>p * real N\<rceil>) = of_int \<lceil>p * real N\<rceil>" by simp
  have "p * real N \<le> of_int \<lceil>p * real N\<rceil>" by (rule le_of_int_ceiling)
  then have "p \<le> of_int \<lceil>p * real N\<rceil> / real N" using n by (simp add: le_divide_eq)
  then show "p \<le> draw_mean N (\<lambda>d. if d < p then 1 else 0)"
    unfolding draw_mean_bit [OF assms] r .
  have "of_int \<lceil>p * real N\<rceil> \<le> p * real N + 1" using of_int_ceiling_le_add_one by blast
  then have "of_int \<lceil>p * real N\<rceil> / real N \<le> (p * real N + 1) / real N"
    using n by (simp add: divide_right_mono)
  also have "\<dots> = p + 1 / real N" using n by (simp add: add_divide_distrib)
  finally show "draw_mean N (\<lambda>d. if d < p then 1 else 0) \<le> p + 1 / real N"
    unfolding draw_mean_bit [OF assms] r .
qed

lemma draw_mean_bit_limit:
  assumes "0 \<le> p" and "p \<le> 1"
  shows "(\<lambda>N. draw_mean N (\<lambda>d. if d < p then 1 else 0)) \<longlonglongrightarrow> p"
proof (rule tendsto_sandwich [of "\<lambda>N. p" _ sequentially "\<lambda>N. p + 1 / real N"])
  show "\<forall>\<^sub>F N in sequentially. p \<le> draw_mean N (\<lambda>d. if d < p then 1 else 0)"
    using eventually_gt_at_top [of 0]
    by eventually_elim (rule draw_mean_bit_bounds(1) [OF assms])
  show "\<forall>\<^sub>F N in sequentially. draw_mean N (\<lambda>d. if d < p then 1 else 0) \<le> p + 1 / real N"
    using eventually_gt_at_top [of 0]
    by eventually_elim (rule draw_mean_bit_bounds(2) [OF assms])
  show "(\<lambda>N. p) \<longlonglongrightarrow> p" by simp
  have "(\<lambda>N. p + 1 / real N) \<longlonglongrightarrow> p + 0"
    by (intro tendsto_add tendsto_const lim_1_over_n)
  then show "(\<lambda>N. p + 1 / real N) \<longlonglongrightarrow> p" by simp
qed

lemma draw_mean_affine:
  assumes "0 < N"
  shows "draw_mean N (\<lambda>d. a + g d * w) = a + draw_mean N g * w"
proof -
  have n: "real N \<noteq> 0" using assms by simp
  have "(\<Sum>k<N. a + g (real k / real N) * w) = real N * a + (\<Sum>k<N. g (real k / real N)) * w"
    by (simp add: sum.distrib sum_distrib_right)
  then show ?thesis using n by (simp add: draw_mean_def add_divide_distrib)
qed

lemma draw_mean_affine_limit:
  assumes "(\<lambda>N. draw_mean N g) \<longlonglongrightarrow> p"
  shows "(\<lambda>N. draw_mean N (\<lambda>d. a + g d * w)) \<longlonglongrightarrow> a + p * w"
proof -
  have l: "(\<lambda>N. a + draw_mean N g * w) \<longlonglongrightarrow> a + p * w"
    using assms by (intro tendsto_add tendsto_const tendsto_mult)
  have "\<forall>\<^sub>F N in sequentially. a + draw_mean N g * w = draw_mean N (\<lambda>d. a + g d * w)"
    using eventually_gt_at_top [of 0]
    by eventually_elim (simp add: draw_mean_affine)
  then show ?thesis using l by (rule Lim_transform_eventually [rotated])
qed

lemma bernoulli_draw_limit:
  assumes "0 \<le> p" and "p \<le> 1"
  shows "(\<lambda>N. draw_mean N (\<lambda>d. projr (bernoulli d p))) \<longlonglongrightarrow> p"
  using draw_mean_bit_limit [OF assms] by (simp add: bernoulli_bit [OF assms])

lemma bracket_of_ids:
  assumes "b \<noteq> []" and "b ! 0 \<le> v"
  shows "0 \<le> int (searchsorted_right b v) - 1"
    and "int (searchsorted_right b v) - 1 < int (length b)"
    and "bracket_of b v = (b ! nat (int (searchsorted_right b v) - 1),
                            b ! nat (clip_pt (length b) (int (searchsorted_right b v) - 1 + 1)))"
    and "b ! nat (int (searchsorted_right b v) - 1) \<le> v"
    and "int (searchsorted_right b v) - 1 + 1 < int (length b)
           \<longrightarrow> v < b ! nat (int (searchsorted_right b v) - 1 + 1)"
proof -
  have pos: "0 < searchsorted_right b v" using assms by (rule searchsorted_right_pos)
  have le: "searchsorted_right b v \<le> length b" by (rule searchsorted_right_le)
  show "0 \<le> int (searchsorted_right b v) - 1" using pos by simp
  show "int (searchsorted_right b v) - 1 < int (length b)" using le by simp
  have n: "nat (int (searchsorted_right b v) - 1) = searchsorted_right b v - 1" by simp
  have c: "nat (clip_pt (length b) (int (searchsorted_right b v) - 1 + 1))
           = (if searchsorted_right b v = length b then length b - 1 else searchsorted_right b v)"
    using pos by (simp add: clip_pt_def nat_diff_distrib)
  show "bracket_of b v = (b ! nat (int (searchsorted_right b v) - 1),
                           b ! nat (clip_pt (length b) (int (searchsorted_right b v) - 1 + 1)))"
    unfolding n c by (simp add: bracket_of_def Let_def)
  show "b ! nat (int (searchsorted_right b v) - 1) \<le> v"
    unfolding n using pos by (intro searchsorted_right_below) simp
  show "int (searchsorted_right b v) - 1 + 1 < int (length b)
           \<longrightarrow> v < b ! nat (int (searchsorted_right b v) - 1 + 1)"
    using searchsorted_right_above [of b v] by simp
qed

lemma prob_width:
  assumes "snd br \<noteq> fst br"
  shows "fst br + prob v br * (snd br - fst br) = v"
proof -
  have nz: "snd br - fst br \<noteq> 0" using assms by simp
  have "prob v br * (snd br - fst br) = v - fst br"
    using assms nz by (simp add: prob_def)
  then show ?thesis by simp
qed

text \<open>
  C3. For every element \<open>v\<close> of the tensor passed to the encoder, with \<open>r\<close> its entry of
  \<^verbatim>\<open>ids\<close>, the bracket is \<open>(B(r), B(r+1))\<close>, two adjacent levels with \<open>B(r) \<le> v\<close> and
  \<open>v < B(r+1)\<close> when \<open>r + 1 < K\<close> (for \<open>r = K - 1\<close> both bounds are \<open>B(K-1)\<close>). When the
  bracket has nonzero width the encoder sets \<open>p = (v - B(r)) / (B(r+1) - B(r))\<close>, a
  probability, and the bit that \<^verbatim>\<open>torch.bernoulli\<close> returns is 1 exactly when the
  element's uniform draw is below \<open>p\<close>: over the uniform draw the mean of the bit is \<open>p\<close>
  and the mean of \<open>B(r) + bit * (B(r+1) - B(r))\<close> is \<open>v\<close>. When the bracket has zero
  width, \<open>p = 0\<close>.
\<close>

theorem encoder_probability:
  assumes "rounding rnd" and "2 \<le> K" and "float_tensor rnd params" and "i < length params"
  shows "\<exists>b encs brs. encoder_levels_rounded rnd K params = Inr b
           \<and> encoder_rounded rnd K u params = Inr (encs, brs)
           \<and> i < length encs \<and> i < length brs
           \<and> 0 \<le> encoder_ids b params ! i \<and> encoder_ids b params ! i < int K
           \<and> brs ! i = (b ! nat (encoder_ids b params ! i),
                         b ! nat (clip_pt K (encoder_ids b params ! i + 1)))
           \<and> b ! nat (encoder_ids b params ! i) \<le> params ! i
           \<and> (encoder_ids b params ! i + 1 < int K \<longrightarrow>
                 params ! i < b ! nat (encoder_ids b params ! i + 1))
           \<and> bernoulli (u i) (encoder_probs params brs ! i) = Inr (encs ! i)
           \<and> encs ! i = (if u i < encoder_probs params brs ! i then 1 else 0)
           \<and> (snd (brs ! i) \<noteq> fst (brs ! i) \<longrightarrow>
                 encoder_probs params brs ! i
                   = (params ! i - fst (brs ! i)) / (snd (brs ! i) - fst (brs ! i))
               \<and> 0 \<le> encoder_probs params brs ! i \<and> encoder_probs params brs ! i < 1
               \<and> (\<lambda>N. draw_mean N (\<lambda>d. projr (bernoulli d (encoder_probs params brs ! i))))
                     \<longlonglongrightarrow> encoder_probs params brs ! i
               \<and> (\<lambda>N. draw_mean N (\<lambda>d. fst (brs ! i)
                       + projr (bernoulli d (encoder_probs params brs ! i)) * (snd (brs ! i) - fst (brs ! i))))
                     \<longlonglongrightarrow> params ! i)
           \<and> (snd (brs ! i) = fst (brs ! i) \<longrightarrow> encoder_probs params brs ! i = 0)"
proof -
  let ?mn = "Min (set params)" and ?mx = "Max (set params)"
  let ?b = "levels_rounded rnd K ?mn ?mx"
  let ?encs = "encode_bits u ?b params" and ?brs = "map (bracket_of ?b) params"
  let ?v = "params ! i"
  let ?br = "bracket_of ?b ?v"
  let ?p = "prob ?v ?br"
  have pne: "params \<noteq> []" using assms(4) by auto
  have lv: "encoder_levels_rounded rnd K params = Inr ?b"
    using pne by (rule encoder_levels_rounded_nonempty)
  have enc: "encoder_rounded rnd K u params = Inr (?encs, ?brs)"
    using assms(1,2) pne assms(3) by (rule encoder_rounded_returns)
  have ne: "?b \<noteq> []" using assms(2) by (rule levels_rounded_nonempty)
  have len: "length ?b = K" by simp
  have "0 < K" using assms(2) by simp
  with assms(1) float_tensor_Min [OF assms(3) pne] have b0: "?b ! 0 = ?mn"
    by (rule levels_rounded_first)
  have "?mn \<le> ?v" using assms(4) by simp
  then have lo: "?b ! 0 \<le> ?v" by (simp only: b0)
  have bri: "?brs ! i = ?br" using assms(4) by simp
  have pi: "encoder_probs params ?brs ! i = ?p" using assms(4) by (rule encoder_probs_nth)
  have idi: "encoder_ids ?b params ! i = int (searchsorted_right ?b ?v) - 1"
    using assms(4) by (rule encoder_ids_nth)
  note f = bracket_of_ids [OF ne lo, unfolded len, folded idi]
  have range: "0 \<le> ?p \<and> ?p < 1" using ne lo by (rule prob_bracket_range)
  then have r01: "0 \<le> ?p" "?p \<le> 1" by simp_all
  have bit: "?encs ! i = (if u i < ?p then 1 else 0)" using assms(4) by (rule encode_bits_nth)
  have draw: "bernoulli (u i) ?p = Inr (?encs ! i)"
    unfolding bit using r01 by (simp add: bernoulli_def)
  have lim1: "(\<lambda>N. draw_mean N (\<lambda>d. projr (bernoulli d ?p))) \<longlonglongrightarrow> ?p"
    using r01 by (rule bernoulli_draw_limit)
  have lim2: "(\<lambda>N. draw_mean N (\<lambda>d. fst ?br + projr (bernoulli d ?p) * (snd ?br - fst ?br)))
      \<longlonglongrightarrow> ?v" if w: "snd ?br \<noteq> fst ?br"
  proof -
    have "(\<lambda>N. draw_mean N (\<lambda>d. fst ?br + projr (bernoulli d ?p) * (snd ?br - fst ?br)))
        \<longlonglongrightarrow> fst ?br + ?p * (snd ?br - fst ?br)"
      using lim1 by (rule draw_mean_affine_limit)
    then show ?thesis unfolding prob_width [OF w] .
  qed
  have form: "snd ?br \<noteq> fst ?br \<longrightarrow> ?p = (?v - fst ?br) / (snd ?br - fst ?br)"
    by (simp add: prob_def)
  have zero: "snd ?br = fst ?br \<longrightarrow> ?p = 0" by (simp add: prob_def)
  have lens: "i < length ?encs \<and> i < length ?brs" using assms(4) by simp
  have wide: "snd (?brs ! i) \<noteq> fst (?brs ! i) \<longrightarrow>
                 encoder_probs params ?brs ! i
                   = (params ! i - fst (?brs ! i)) / (snd (?brs ! i) - fst (?brs ! i))
               \<and> 0 \<le> encoder_probs params ?brs ! i \<and> encoder_probs params ?brs ! i < 1
               \<and> (\<lambda>N. draw_mean N (\<lambda>d. projr (bernoulli d (encoder_probs params ?brs ! i))))
                     \<longlonglongrightarrow> encoder_probs params ?brs ! i
               \<and> (\<lambda>N. draw_mean N (\<lambda>d. fst (?brs ! i)
                       + projr (bernoulli d (encoder_probs params ?brs ! i)) * (snd (?brs ! i) - fst (?brs ! i))))
                     \<longlonglongrightarrow> params ! i"
    unfolding pi bri using form range lim1 lim2 by blast
  have narrow: "snd (?brs ! i) = fst (?brs ! i) \<longrightarrow> encoder_probs params ?brs ! i = 0"
    unfolding pi bri by (rule zero)
  have br': "?brs ! i = (?b ! nat (encoder_ids ?b params ! i),
                         ?b ! nat (clip_pt K (encoder_ids ?b params ! i + 1)))"
    unfolding bri by (rule f(3))
  have draw': "bernoulli (u i) (encoder_probs params ?brs ! i) = Inr (?encs ! i)"
    unfolding pi by (rule draw)
  have bit': "?encs ! i = (if u i < encoder_probs params ?brs ! i then 1 else 0)"
    unfolding pi by (rule bit)
  from lv enc lens f(1) f(2) br' f(4) f(5) draw' bit' wide narrow show ?thesis by blast
qed

lemma interpolated_encoded:
  "encoder_rounded float32 4 half_draws interpolated_chunk
     = Inr ([0, 0, 0], [(0, 1), (1, 2), (3, 3)])"
proof -
  have ne: "interpolated_chunk \<noteq> []" by (simp add: interpolated_chunk_def)
  show ?thesis
    using encoder_rounded_returns [OF rounding_float32 _ ne float_tensor_interpolated, of 4 half_draws]
    by (simp add: interpolated_min_max levels_rounded_scenario interpolated_brackets
        interpolated_bits [OF unit_half_draws] half_draws_def)
qed

theorem encoder_probability_witness:
  "rounding float32 \<and> float_tensor float32 interpolated_chunk
   \<and> encoder_rounded float32 4 half_draws interpolated_chunk
       = Inr ([0, 0, 0], [(0, 1), (1, 2), (3, 3)])
   \<and> encoder_probs interpolated_chunk [(0, 1), (1, 2), (3, 3)] ! 1 = 1 / 2
   \<and> (\<lambda>N. draw_mean N (\<lambda>d. projr (bernoulli d (1 / 2)))) \<longlonglongrightarrow> 1 / 2
   \<and> (\<lambda>N. draw_mean N (\<lambda>d. 1 + projr (bernoulli d (1 / 2)) * (2 - 1))) \<longlonglongrightarrow> 3 / 2"
proof -
  have i: "1 < length interpolated_chunk" by (simp add: interpolated_chunk_def)
  have k: "(2::nat) \<le> 4" by simp
  have v: "interpolated_chunk ! 1 = 3 / 2" by (simp add: interpolated_chunk_def)
  from encoder_probability [OF rounding_float32 k float_tensor_interpolated i, where u = half_draws]
  obtain encs brs where
    e: "encoder_rounded float32 4 half_draws interpolated_chunk = Inr (encs, brs)"
    and w: "snd (brs ! 1) \<noteq> fst (brs ! 1) \<longrightarrow>
                 encoder_probs interpolated_chunk brs ! 1
                   = (interpolated_chunk ! 1 - fst (brs ! 1)) / (snd (brs ! 1) - fst (brs ! 1))
               \<and> 0 \<le> encoder_probs interpolated_chunk brs ! 1 \<and> encoder_probs interpolated_chunk brs ! 1 < 1
               \<and> (\<lambda>N. draw_mean N (\<lambda>d. projr (bernoulli d (encoder_probs interpolated_chunk brs ! 1))))
                     \<longlonglongrightarrow> encoder_probs interpolated_chunk brs ! 1
               \<and> (\<lambda>N. draw_mean N (\<lambda>d. fst (brs ! 1)
                       + projr (bernoulli d (encoder_probs interpolated_chunk brs ! 1)) * (snd (brs ! 1) - fst (brs ! 1))))
                     \<longlonglongrightarrow> interpolated_chunk ! 1"
    by blast
  from e have brs: "brs = [(0, 1), (1, 2), (3, 3)]" by (simp add: interpolated_encoded)
  have b1: "brs ! 1 = (1, 2)" unfolding brs by simp
  have "snd (brs ! 1) \<noteq> fst (brs ! 1)" unfolding b1 by simp
  with w have p: "encoder_probs interpolated_chunk brs ! 1
                   = (interpolated_chunk ! 1 - fst (brs ! 1)) / (snd (brs ! 1) - fst (brs ! 1))"
    and l1: "(\<lambda>N. draw_mean N (\<lambda>d. projr (bernoulli d (encoder_probs interpolated_chunk brs ! 1))))
                     \<longlonglongrightarrow> encoder_probs interpolated_chunk brs ! 1"
    and l2: "(\<lambda>N. draw_mean N (\<lambda>d. fst (brs ! 1)
                       + projr (bernoulli d (encoder_probs interpolated_chunk brs ! 1)) * (snd (brs ! 1) - fst (brs ! 1))))
                     \<longlonglongrightarrow> interpolated_chunk ! 1"
    by blast+
  have p': "encoder_probs interpolated_chunk brs ! 1 = 1 / 2"
    unfolding p b1 v by simp
  have c4: "encoder_probs interpolated_chunk [(0, 1), (1, 2), (3, 3)] ! 1 = 1 / 2"
    using p' unfolding brs .
  have c5: "(\<lambda>N. draw_mean N (\<lambda>d. projr (bernoulli d (1 / 2)))) \<longlonglongrightarrow> 1 / 2"
    using l1 unfolding p' .
  have c6: "(\<lambda>N. draw_mean N (\<lambda>d. 1 + projr (bernoulli d (1 / 2)) * (2 - 1))) \<longlonglongrightarrow> 3 / 2"
    using l2 unfolding p' b1 v by simp
  from rounding_float32 float_tensor_interpolated interpolated_encoded c4 c5 c6 show ?thesis
    by blast
qed


end
